theory Spec2Isabelle
  imports Main "HOL-Library.Word"
begin

section \<open>Constants of the memory cache\<close>

definition PAGE_SIZE :: int where
  "PAGE_SIZE = 4096"

definition RETRIEVAL_SIZE :: int where
  "RETRIEVAL_SIZE = 4"

definition CACHE_TRIGGER :: int where
  "CACHE_TRIGGER = 1"

section \<open>Addresses, pages and offsets\<close>

text \<open>
  Modelled from the spec: the big-integer arithmetic of addresses. The cache receives its
  addresses from \<^verbatim>\<open>new PointerMath.Pointer(address).value()\<close>, a big integer whose
  library is not part of the sources at hand. The spec describes its \<^verbatim>\<open>mod\<close> as the
  remainder and its \<^verbatim>\<open>divide\<close> as truncating division; both are written here on
  \<^typ>\<open>int\<close> with the sign of the dividend carried over. The spec leaves the divisor 0
  open; every caller passes an element size accepted by the viewer table, which is never 0.
\<close>

definition big_mod :: "int \<Rightarrow> int \<Rightarrow> int" where
  "big_mod a b = sgn a * (\<bar>a\<bar> mod \<bar>b\<bar>)"

definition big_divide :: "int \<Rightarrow> int \<Rightarrow> int" where
  "big_divide a b = sgn a * sgn b * (\<bar>a\<bar> div \<bar>b\<bar>)"

definition getPage :: "int \<Rightarrow> int" where
  "getPage address = address - big_mod address PAGE_SIZE"

definition getOffset :: "int \<Rightarrow> int \<Rightarrow> int" where
  "getOffset address sz = big_divide (big_mod address PAGE_SIZE) sz"

text \<open>
  \<^verbatim>\<open>calculatePagesForArray\<close>: the loop pushes the current page while it lies below the
  last address and moves on by one page.
\<close>

function pagesBelow :: "int \<Rightarrow> int \<Rightarrow> int list" where
  "pagesBelow currentPage lastAddress =
     (if currentPage < lastAddress
      then currentPage # pagesBelow (currentPage + PAGE_SIZE) lastAddress
      else [])"
  by pat_completeness auto
termination
  by (relation "measure (\<lambda>(currentPage, lastAddress). nat (lastAddress - currentPage))")
     (auto simp: PAGE_SIZE_def)

declare pagesBelow.simps [simp del]

definition calculatePagesForArray :: "int \<Rightarrow> int \<Rightarrow> int \<Rightarrow> int list" where
  "calculatePagesForArray address itemSize count =
     pagesBelow (getPage address) (address + itemSize * count)"

section \<open>Typed views over a byte buffer\<close>

type_synonym byte = "8 word"

datatype viewer =
    Uint8Array | Uint16Array | Uint32Array
  | Int8Array | Int16Array | Int32Array
  | Float32Array | Float64Array

definition floatArrays :: "viewer option list" where
  "floatArrays = [Some Float32Array, Some Float64Array]"

definition unsignedArrays :: "viewer option list" where
  "unsignedArrays =
     [Some Uint8Array, Some Uint16Array, None, Some Uint32Array, None, None, None, None]"

definition signedArrays :: "viewer option list" where
  "signedArrays =
     [Some Int8Array, Some Int16Array, None, Some Int32Array, None, None, None, None]"

text \<open>
  Indexing a table: an index outside the table reads \<^verbatim>\<open>undefined\<close>, which the
  test \<^verbatim>\<open>viewer == null\<close> of \<^verbatim>\<open>loadPage\<close> does not tell from \<^verbatim>\<open>null\<close>.
\<close>

definition tableAt :: "viewer option list \<Rightarrow> int \<Rightarrow> viewer option" where
  "tableAt table i = (if 0 \<le> i \<and> i < int (length table) then table ! nat i else None)"

text \<open>
  \<^verbatim>\<open>getArrayViewer\<close>. Sizes are whole numbers; \<^verbatim>\<open>size / 4 - 1\<close> is a whole number
  only for a multiple of 4, and no other number names an element of the table.
\<close>

definition getArrayViewer :: "int \<Rightarrow> bool \<Rightarrow> bool \<Rightarrow> viewer option" where
  "getArrayViewer sz isUnsigned isFloat =
     (if isFloat then (if sz mod 4 = 0 then tableAt floatArrays (sz div 4 - 1) else None)
      else if isUnsigned then tableAt unsignedArrays (sz - 1)
      else tableAt signedArrays (sz - 1))"

fun BYTES_PER_ELEMENT :: "viewer \<Rightarrow> nat" where
  "BYTES_PER_ELEMENT Uint8Array = 1"
| "BYTES_PER_ELEMENT Int8Array = 1"
| "BYTES_PER_ELEMENT Uint16Array = 2"
| "BYTES_PER_ELEMENT Int16Array = 2"
| "BYTES_PER_ELEMENT Uint32Array = 4"
| "BYTES_PER_ELEMENT Int32Array = 4"
| "BYTES_PER_ELEMENT Float32Array = 4"
| "BYTES_PER_ELEMENT Float64Array = 8"

text \<open>
  A typed array reads and writes its buffer in the byte order of the platform, taken to be
  little-endian. A floating-point element is kept as its bit pattern.
\<close>

definition le_word :: "byte list \<Rightarrow> 'a::len word" where
  "le_word bs = word_of_int (horner_sum uint 256 bs)"

definition le_bytes :: "nat \<Rightarrow> 'a::len word \<Rightarrow> byte list" where
  "le_bytes n w = map (\<lambda>k. ucast (drop_bit (8 * k) w)) [0..<n]"

datatype jsvalue =
    Number int
  | Float32Bits "32 word"
  | Float64Bits "64 word"
  | Undefined

fun element :: "viewer \<Rightarrow> byte list \<Rightarrow> jsvalue" where
  "element Uint8Array bs = Number (uint (le_word bs :: 8 word))"
| "element Uint16Array bs = Number (uint (le_word bs :: 16 word))"
| "element Uint32Array bs = Number (uint (le_word bs :: 32 word))"
| "element Int8Array bs = Number (sint (le_word bs :: 8 word))"
| "element Int16Array bs = Number (sint (le_word bs :: 16 word))"
| "element Int32Array bs = Number (sint (le_word bs :: 32 word))"
| "element Float32Array bs = Float32Bits (le_word bs)"
| "element Float64Array bs = Float64Bits (le_word bs)"

definition viewLength :: "viewer \<Rightarrow> byte list \<Rightarrow> nat" where
  "viewLength v buf = length buf div BYTES_PER_ELEMENT v"

definition viewIndex :: "viewer \<Rightarrow> byte list \<Rightarrow> int \<Rightarrow> jsvalue" where
  "viewIndex v buf i =
     (if 0 \<le> i \<and> i < int (viewLength v buf)
      then element v (take (BYTES_PER_ELEMENT v) (drop (nat i * BYTES_PER_ELEMENT v) buf))
      else Undefined)"

text \<open>
  Filling a fresh page buffer from a fetched array, through a 4-byte unsigned view:
  \<^verbatim>\<open>view[i] = result.array[i]\<close> stores the number modulo \<open>2 ^ 32\<close>, and
  \<^verbatim>\<open>undefined\<close> (an index past the fetched array) as 0.
\<close>

definition fetchedAt :: "int list \<Rightarrow> nat \<Rightarrow> 32 word" where
  "fetchedAt array i = (if i < length array then word_of_int (array ! i) else 0)"

definition setUint32 :: "byte list \<Rightarrow> nat \<Rightarrow> 32 word \<Rightarrow> byte list" where
  "setUint32 buf i w =
     (if 4 * i + 4 \<le> length buf
      then take (4 * i) buf @ le_bytes 4 w @ drop (4 * i + 4) buf
      else buf)"

definition fillPage :: "int list \<Rightarrow> byte list" where
  "fillPage array =
     foldl (\<lambda>buf i. setUint32 buf i (fetchedAt array i))
       (replicate (nat PAGE_SIZE) 0)
       [0..<viewLength Uint32Array (replicate (nat PAGE_SIZE) 0)]"

section \<open>Cache entries, continuations and the state of the module\<close>

datatype failure = RemoteReadFailure nat

datatype pageMemory = ArrayBuffer "byte list" | FailedResult failure

datatype view = TypedArray viewer "byte list" | ErrorView failure

text \<open>
  The continuations handed to \<^verbatim>\<open>loadPage\<close>, as data: the closure of
  \<^verbatim>\<open>readNumber\<close> (address, size, the caller's continuation) and the closure
  \<^verbatim>\<open>pageLoaded\<close> of \<^verbatim>\<open>requestPages\<close> (the array read it belongs to, the index of
  its page). A caller's continuation is a name. The wrapper \<^verbatim>\<open>memoryCallback\<close> adds the
  viewer.
\<close>

datatype callback =
    ReadNumberCallback int int nat
  | PageLoaded nat nat

type_synonym waiter = "viewer \<times> callback"

record cacheEntry =
  hits :: int
  memory :: "pageMemory option"
  error :: "failure option"
  inflight :: bool
  callbacks :: "waiter list"

datatype result =
    ErrorResult failure
  | ValueResult jsvalue
  | ArrayResult "jsvalue list"

datatype continuation = UserCallback nat | PageFetched nat

text \<open>
  What the module does to the outside: the requests it sends to the debugger
  (\<^verbatim>\<open>JsDbg.ReadArray\<close>, \<^verbatim>\<open>JsDbg.ReadNumber\<close>, \<^verbatim>\<open>JsDbg.GetPointerSize\<close>, each with the
  continuation it passes) and the calls of a caller's continuation with a result of the
  cache. The continuation of a page fetch closes over its cache entry, named by its place
  in the store of entries.
\<close>

datatype event =
    ReadArrayRequest int int bool bool int continuation
  | ReadNumberRequest int int bool bool nat
  | GetPointerSizeRequest int nat
  | Delivered nat result

text \<open>
  The variables of one call of \<^verbatim>\<open>readArray\<close> and of its \<^verbatim>\<open>requestPages\<close>, shared by
  the closures of that call.
\<close>

record arrayRead =
  readAddress :: int
  readItemSize :: int
  readCount :: int
  readCallback :: nat
  areAllPagesEligible :: bool
  loadedViews :: "view option list"
  remainingViews :: int

record state =
  pointerSize :: "int option"
  cache :: "int \<Rightarrow> nat option"
  entries :: "cacheEntry list"
  arrayReads :: "arrayRead list"
  trace :: "event list"

definition initialState :: state where
  "initialState =
     \<lparr>pointerSize = None, cache = (\<lambda>page. None), entries = [], arrayReads = [], trace = []\<rparr>"

definition emit :: "event \<Rightarrow> state \<Rightarrow> state" where
  "emit e s = s\<lparr>trace := trace s @ [e]\<rparr>"

definition clearCache :: "state \<Rightarrow> state" where
  "clearCache s = s\<lparr>cache := (\<lambda>page. None)\<rparr>"

definition newEntry :: cacheEntry where
  "newEntry = \<lparr>hits = 0, memory = None, error = None, inflight = False, callbacks = []\<rparr>"

definition getCacheEntry :: "state \<Rightarrow> int \<Rightarrow> nat \<times> state" where
  "getCacheEntry s page =
     (case cache s page of
        Some entry \<Rightarrow> (entry, s)
      | None \<Rightarrow>
          (length (entries s),
           s\<lparr>entries := entries s @ [newEntry],
             cache := (cache s)(page \<mapsto> length (entries s))\<rparr>))"

definition updateEntry :: "nat \<Rightarrow> (cacheEntry \<Rightarrow> cacheEntry) \<Rightarrow> state \<Rightarrow> state" where
  "updateEntry entry f s = s\<lparr>entries := (entries s)[entry := f (entries s ! entry)]\<rparr>"

definition updateRead :: "nat \<Rightarrow> (arrayRead \<Rightarrow> arrayRead) \<Rightarrow> state \<Rightarrow> state" where
  "updateRead r f s = s\<lparr>arrayReads := (arrayReads s)[r := f (arrayReads s ! r)]\<rparr>"

section \<open>The array read's continuation\<close>

text \<open>
  One round of \<^verbatim>\<open>views.forEach\<close> in the continuation of \<^verbatim>\<open>readArray\<close>, on the
  variables \<^verbatim>\<open>result\<close>, \<^verbatim>\<open>indexInCurrentPage\<close> and \<^verbatim>\<open>firstError\<close>.
\<close>

fun gatherView ::
  "int \<Rightarrow> jsvalue list \<times> int \<times> failure option \<Rightarrow> view \<Rightarrow> jsvalue list \<times> int \<times> failure option"
where
  "gatherView count (result, indexInCurrentPage, Some e) v = (result, indexInCurrentPage, Some e)"
| "gatherView count (result, indexInCurrentPage, None) (ErrorView e) =
     (result, indexInCurrentPage, Some e)"
| "gatherView count (result, indexInCurrentPage, None) (TypedArray v buf) =
     (let remainingElements = count - int (length result);
          lastIndexInCurrentPage =
            min (indexInCurrentPage + remainingElements) (int (viewLength v buf))
      in (result @ map (viewIndex v buf) [indexInCurrentPage..lastIndexInCurrentPage - 1],
          0, None))"

definition arrayLoaded :: "int \<Rightarrow> int \<Rightarrow> int \<Rightarrow> view list \<Rightarrow> result" where
  "arrayLoaded address itemSize count views =
     (case foldl (gatherView count) ([], getOffset address itemSize, None) views of
        (result, indexInCurrentPage, Some e) \<Rightarrow> ErrorResult e
      | (result, indexInCurrentPage, None) \<Rightarrow> ArrayResult result)"

text \<open>
  \<^verbatim>\<open>pageLoaded\<close>: store the view, count down, and call the continuation of the array
  read once nothing remains and no page was declined. The index is that of a page of the read,
  so it lies inside \<^verbatim>\<open>loadedViews\<close>. \<^verbatim>\<open>forEach\<close> passes over the places of
  \<^verbatim>\<open>loadedViews\<close> that were never written.
\<close>

definition pageLoaded :: "state \<Rightarrow> nat \<Rightarrow> nat \<Rightarrow> view \<Rightarrow> state" where
  "pageLoaded s r i v =
     (let s' = updateRead r (\<lambda>a. a\<lparr>loadedViews := (loadedViews a)[i := Some v],
                                   remainingViews := remainingViews a - 1\<rparr>) s;
          a = arrayReads s' ! r
      in if remainingViews a = 0 \<and> areAllPagesEligible a
         then emit (Delivered (readCallback a)
                (arrayLoaded (readAddress a) (readItemSize a) (readCount a)
                   (List.map_filter id (loadedViews a)))) s'
         else s')"

fun invokeCallback :: "state \<Rightarrow> callback \<Rightarrow> view \<Rightarrow> state" where
  "invokeCallback s (ReadNumberCallback address sz cb) (ErrorView e) =
     emit (Delivered cb (ErrorResult e)) s"
| "invokeCallback s (ReadNumberCallback address sz cb) (TypedArray v buf) =
     emit (Delivered cb (ValueResult (viewIndex v buf (getOffset address sz)))) s"
| "invokeCallback s (PageLoaded r i) v = pageLoaded s r i v"

fun memoryCallback :: "state \<Rightarrow> waiter \<Rightarrow> pageMemory \<Rightarrow> state" where
  "memoryCallback s (v, c) (FailedResult e) = invokeCallback s c (ErrorView e)"
| "memoryCallback s (v, c) (ArrayBuffer buf) = invokeCallback s c (TypedArray v buf)"

section \<open>Admission of a page\<close>

definition loadPage :: "state \<Rightarrow> int \<Rightarrow> viewer option \<Rightarrow> callback \<Rightarrow> bool \<times> state" where
  "loadPage s page viewer c =
     (case viewer of
        None \<Rightarrow> (False, s)
      | Some v \<Rightarrow>
          (let (entry, s1) = getCacheEntry s page;
               s2 = updateEntry entry (\<lambda>e. e\<lparr>hits := hits e + 1\<rparr>) s1;
               cacheEntry = entries s2 ! entry
           in case memory cacheEntry of
                Some m \<Rightarrow> (True, memoryCallback s2 (v, c) m)
              | None \<Rightarrow>
                  if hits cacheEntry = CACHE_TRIGGER then
                    (True,
                     emit (ReadArrayRequest page RETRIEVAL_SIZE True False
                             (PAGE_SIZE div RETRIEVAL_SIZE) (PageFetched entry))
                       (updateEntry entry
                          (\<lambda>e. e\<lparr>inflight := True, callbacks := callbacks e @ [(v, c)]\<rparr>) s2))
                  else if inflight cacheEntry then
                    (True, updateEntry entry (\<lambda>e. e\<lparr>callbacks := callbacks e @ [(v, c)]\<rparr>) s2)
                  else (False, s2)))"

text \<open>
  The continuation of the page fetch (the function passed to \<^verbatim>\<open>JsDbg.ReadArray\<close> in
  \<^verbatim>\<open>loadPage\<close>), run when the debugger answers for the entry it closes over.
\<close>

datatype fetchResult = FetchFailed failure | FetchedArray "int list"

fun notifyWaiters :: "state \<Rightarrow> waiter list \<Rightarrow> pageMemory \<Rightarrow> state" where
  "notifyWaiters s [] m = s"
| "notifyWaiters s (w # ws) m = notifyWaiters (memoryCallback s w m) ws m"

fun storeFetched :: "fetchResult \<Rightarrow> cacheEntry \<Rightarrow> cacheEntry" where
  "storeFetched (FetchFailed e) c = c\<lparr>memory := Some (FailedResult e)\<rparr>"
| "storeFetched (FetchedArray array) c =
     c\<lparr>inflight := False, memory := Some (ArrayBuffer (fillPage array))\<rparr>"

fun fetchedMemory :: "fetchResult \<Rightarrow> pageMemory" where
  "fetchedMemory (FetchFailed e) = FailedResult e"
| "fetchedMemory (FetchedArray array) = ArrayBuffer (fillPage array)"

definition pageFetched :: "state \<Rightarrow> nat \<Rightarrow> fetchResult \<Rightarrow> state" where
  "pageFetched s entry r =
     (let s1 = updateEntry entry (storeFetched r) s;
          s2 = notifyWaiters s1 (callbacks (entries s1 ! entry)) (fetchedMemory r)
      in updateEntry entry (\<lambda>e. e\<lparr>callbacks := []\<rparr>) s2)"

section \<open>The public reads\<close>

definition readNumber :: "state \<Rightarrow> int \<Rightarrow> int \<Rightarrow> bool \<Rightarrow> bool \<Rightarrow> nat \<Rightarrow> state" where
  "readNumber s address sz isUnsigned isFloat cb =
     (let viewer = getArrayViewer sz isUnsigned isFloat;
          (ok, s') = loadPage s (getPage address) viewer (ReadNumberCallback address sz cb)
      in if \<not> ok then emit (ReadNumberRequest address sz isUnsigned isFloat cb) s' else s')"

definition readPointer :: "state \<Rightarrow> int \<Rightarrow> nat \<Rightarrow> state" where
  "readPointer s address cb =
     (case pointerSize s of
        None \<Rightarrow> emit (GetPointerSizeRequest address cb) s
      | Some n \<Rightarrow> readNumber s address n True False cb)"

text \<open>
  The continuation of \<^verbatim>\<open>JsDbg.GetPointerSize\<close>: keep the answer (which may lack the
  field) and read the pointer again.
\<close>

definition pointerSizeReceived :: "state \<Rightarrow> int \<Rightarrow> nat \<Rightarrow> int option \<Rightarrow> state" where
  "pointerSizeReceived s address cb answer = readPointer (s\<lparr>pointerSize := answer\<rparr>) address cb"

fun requestEach :: "state \<Rightarrow> nat \<Rightarrow> viewer option \<Rightarrow> nat \<Rightarrow> int list \<Rightarrow> state" where
  "requestEach s r viewer i [] = s"
| "requestEach s r viewer i (page # pages) =
     (let (ok, s') = loadPage s page viewer (PageLoaded r i);
          s'' = (if \<not> ok then updateRead r (\<lambda>a. a\<lparr>areAllPagesEligible := False\<rparr>) s' else s')
      in requestEach s'' r viewer (Suc i) pages)"

definition newArrayRead :: "int \<Rightarrow> int \<Rightarrow> int \<Rightarrow> nat \<Rightarrow> nat \<Rightarrow> arrayRead" where
  "newArrayRead address itemSize count cb n =
     \<lparr>readAddress = address, readItemSize = itemSize, readCount = count, readCallback = cb,
      areAllPagesEligible = True, loadedViews = replicate n None, remainingViews = int n\<rparr>"

definition requestPages ::
  "state \<Rightarrow> int list \<Rightarrow> viewer option \<Rightarrow> int \<Rightarrow> int \<Rightarrow> int \<Rightarrow> nat \<Rightarrow> bool \<times> state"
where
  "requestPages s pages viewer address itemSize count cb =
     (let r = length (arrayReads s);
          s0 = s\<lparr>arrayReads := arrayReads s @ [newArrayRead address itemSize count cb (length pages)]\<rparr>;
          s1 = requestEach s0 r viewer 0 pages
      in (areAllPagesEligible (arrayReads s1 ! r), s1))"

definition readArray :: "state \<Rightarrow> int \<Rightarrow> int \<Rightarrow> bool \<Rightarrow> bool \<Rightarrow> int \<Rightarrow> nat \<Rightarrow> state" where
  "readArray s address itemSize isUnsigned isFloat count cb =
     (let viewer = getArrayViewer itemSize isUnsigned isFloat;
          pagesToRequest = calculatePagesForArray address itemSize count;
          (canUseCache, s') = requestPages s pagesToRequest viewer address itemSize count cb
      in if \<not> canUseCache
         then emit (ReadArrayRequest address itemSize isUnsigned isFloat count (UserCallback cb)) s'
         else s')"

section \<open>Runs of the module\<close>

text \<open>
  What can happen to the module: a public read, a change of the debugger's execution state
  (which runs \<^verbatim>\<open>clearCache\<close>), or an answer of the debugger to a request that was
  sent. The debugger answers a page fetch once: an entry whose fetch was sent and whose
  \<^verbatim>\<open>memory\<close> is still \<^verbatim>\<open>null\<close> awaits its answer.
\<close>

datatype action =
    ReadPointer int nat
  | ReadNumber int int bool bool nat
  | ReadArray int int bool bool int nat
  | Break
  | PointerSizeAnswer int nat "int option"
  | PageAnswer nat fetchResult

fun perform :: "state \<Rightarrow> action \<Rightarrow> state" where
  "perform s (ReadPointer address cb) = readPointer s address cb"
| "perform s (ReadNumber address sz isUnsigned isFloat cb) =
     readNumber s address sz isUnsigned isFloat cb"
| "perform s (ReadArray address itemSize isUnsigned isFloat count cb) =
     readArray s address itemSize isUnsigned isFloat count cb"
| "perform s Break = clearCache s"
| "perform s (PointerSizeAnswer address cb answer) = pointerSizeReceived s address cb answer"
| "perform s (PageAnswer entry r) = pageFetched s entry r"

fun isPageFetch :: "nat \<Rightarrow> event \<Rightarrow> bool" where
  "isPageFetch entry (ReadArrayRequest address sz u f n (PageFetched e)) = (e = entry)"
| "isPageFetch entry (ReadArrayRequest address sz u f n (UserCallback cb)) = False"
| "isPageFetch entry (ReadNumberRequest address sz u f cb) = False"
| "isPageFetch entry (GetPointerSizeRequest address cb) = False"
| "isPageFetch entry (Delivered cb r) = False"

definition pageFetches :: "nat \<Rightarrow> event list \<Rightarrow> nat" where
  "pageFetches entry events = length (filter (isPageFetch entry) events)"

fun enabled :: "state \<Rightarrow> action \<Rightarrow> bool" where
  "enabled s (PointerSizeAnswer address cb answer) =
     (GetPointerSizeRequest address cb \<in> set (trace s))"
| "enabled s (PageAnswer entry r) =
     (0 < pageFetches entry (trace s) \<and> entry < length (entries s)
      \<and> memory (entries s ! entry) = None)"
| "enabled s (ReadPointer address cb) = True"
| "enabled s (ReadNumber address sz isUnsigned isFloat cb) = True"
| "enabled s (ReadArray address itemSize isUnsigned isFloat count cb) = True"
| "enabled s Break = True"

fun execute :: "state \<Rightarrow> action list \<Rightarrow> state option" where
  "execute s [] = Some s"
| "execute s (a # as) = (if enabled s a then execute (perform s a) as else None)"

section \<open>Notions used to state the properties\<close>

text \<open>The elements of a view, in order.\<close>

definition viewElements :: "viewer \<Rightarrow> byte list \<Rightarrow> jsvalue list" where
  "viewElements v buf = map (\<lambda>i. viewIndex v buf (int i)) [0..<viewLength v buf]"

text \<open>Every continuation queued on some entry of the store, and whether an array read has one.\<close>

definition allWaiters :: "state \<Rightarrow> waiter set" where
  "allWaiters s = (\<Union>e \<in> set (entries s). set (callbacks e))"

definition awaited :: "nat \<Rightarrow> state \<Rightarrow> bool" where
  "awaited r s = (\<exists>w \<in> allWaiters s. \<exists>i. snd w = PageLoaded r i)"

definition ineligible :: "nat \<Rightarrow> state \<Rightarrow> bool" where
  "ineligible r s = (r < length (arrayReads s) \<and> \<not> areAllPagesEligible (arrayReads s ! r))"

text \<open>
  \<^verbatim>\<open>loadPage\<close> in two halves: finding the entry of the page and counting the hit, and
  the decision taken on the entry.
\<close>

definition touchEntry :: "state \<Rightarrow> int \<Rightarrow> nat \<times> state" where
  "touchEntry s page =
     (let (entry, s1) = getCacheEntry s page
      in (entry, updateEntry entry (\<lambda>e. e\<lparr>hits := hits e + 1\<rparr>) s1))"

definition admitEntry :: "state \<Rightarrow> nat \<Rightarrow> int \<Rightarrow> viewer \<Rightarrow> callback \<Rightarrow> bool \<times> state" where
  "admitEntry s2 entry page v c =
     (case memory (entries s2 ! entry) of
        Some m \<Rightarrow> (True, memoryCallback s2 (v, c) m)
      | None \<Rightarrow>
          if hits (entries s2 ! entry) = CACHE_TRIGGER then
            (True,
             emit (ReadArrayRequest page RETRIEVAL_SIZE True False
                     (PAGE_SIZE div RETRIEVAL_SIZE) (PageFetched entry))
               (updateEntry entry
                  (\<lambda>e. e\<lparr>inflight := True, callbacks := callbacks e @ [(v, c)]\<rparr>) s2))
          else if inflight (entries s2 ! entry) then
            (True, updateEntry entry (\<lambda>e. e\<lparr>callbacks := callbacks e @ [(v, c)]\<rparr>) s2)
          else (False, s2))"

text \<open>The state after \<^verbatim>\<open>requestPages\<close> has set up the variables of an array read.\<close>

definition allocated :: "state \<Rightarrow> arrayRead \<Rightarrow> state" where
  "allocated s a = s\<lparr>arrayReads := arrayReads s @ [a]\<rparr>"

text \<open>One round of the loop of \<^verbatim>\<open>requestPages\<close>.\<close>

definition requestOne :: "state \<Rightarrow> nat \<Rightarrow> viewer option \<Rightarrow> nat \<Rightarrow> int \<Rightarrow> state" where
  "requestOne s r viewer i page =
     (let (ok, s') = loadPage s page viewer (PageLoaded r i)
      in if \<not> ok then updateRead r (\<lambda>a. a\<lparr>areAllPagesEligible := False\<rparr>) s' else s')"

text \<open>
  The outcome of each admission made by \<^verbatim>\<open>requestPages\<close>, page by page, in the state
  the page is admitted in.
\<close>

fun admissions :: "state \<Rightarrow> nat \<Rightarrow> viewer option \<Rightarrow> nat \<Rightarrow> int list \<Rightarrow> bool list" where
  "admissions s r viewer i [] = []"
| "admissions s r viewer i (page # pages) =
     (let (ok, s') = loadPage s page viewer (PageLoaded r i);
          s'' = (if \<not> ok then updateRead r (\<lambda>a. a\<lparr>areAllPagesEligible := False\<rparr>) s' else s')
      in ok # admissions s'' r viewer (Suc i) pages)"

definition readArrayAdmissions ::
  "state \<Rightarrow> int \<Rightarrow> int \<Rightarrow> bool \<Rightarrow> bool \<Rightarrow> int \<Rightarrow> nat \<Rightarrow> bool list"
where
  "readArrayAdmissions s address itemSize isUnsigned isFloat count cb =
     (let pages = calculatePagesForArray address itemSize count
      in admissions (allocated s (newArrayRead address itemSize count cb (length pages)))
           (length (arrayReads s)) (getArrayViewer itemSize isUnsigned isFloat) 0 pages)"

text \<open>The requests that fetch a page for the cache.\<close>

fun isFetchRequest :: "event \<Rightarrow> bool" where
  "isFetchRequest (ReadArrayRequest address sz u f n (PageFetched e)) = True"
| "isFetchRequest (ReadArrayRequest address sz u f n (UserCallback cb)) = False"
| "isFetchRequest (ReadNumberRequest address sz u f cb) = False"
| "isFetchRequest (GetPointerSizeRequest address cb) = False"
| "isFetchRequest (Delivered cb r) = False"

text \<open>
  What holds of the store of entries in every state the module reaches: the cache names
  entries of the store, every entry was hit, had its page fetch sent exactly once, is in
  flight as long as it has no memory, and holds a full page once it has bytes.
\<close>

definition cacheInvariant :: "state \<Rightarrow> bool" where
  "cacheInvariant s \<longleftrightarrow>
     (\<forall>page entry. cache s page = Some entry \<longrightarrow> entry < length (entries s))
     \<and> (\<forall>entry. pageFetches entry (trace s) = (if entry < length (entries s) then 1 else 0))
     \<and> (\<forall>entry < length (entries s).
           1 \<le> hits (entries s ! entry)
           \<and> (memory (entries s ! entry) = None \<longrightarrow> inflight (entries s ! entry))
           \<and> (\<forall>buf. memory (entries s ! entry) = Some (ArrayBuffer buf)
                 \<longrightarrow> length buf = nat PAGE_SIZE))"


fun waitsFor :: "nat \<Rightarrow> waiter \<Rightarrow> bool" where
  "waitsFor r (v, PageLoaded r' i) = (r' = r)"
| "waitsFor r (v, ReadNumberCallback address sz cb) = False"

definition readQueue :: "nat \<Rightarrow> cacheEntry \<Rightarrow> waiter list" where
  "readQueue r c = filter (waitsFor r) (callbacks c)"





text \<open>
  Modelled from the spec: the remote memory source, for unsigned 4-byte elements. The
  debugger is not part of the sources at hand; the spec has it read a byte range of the
  stopped process and deliver a sequence of numbers. The process memory is a function from
  addresses to bytes, and an element is the little-endian number of its four bytes.
\<close>

definition remoteUint32 :: "(int \<Rightarrow> byte) \<Rightarrow> int \<Rightarrow> int" where
  "remoteUint32 mem address =
     uint (le_word [mem address, mem (address + 1), mem (address + 2), mem (address + 3)]
            :: 32 word)"

definition remoteReadUint32 :: "(int \<Rightarrow> byte) \<Rightarrow> int \<Rightarrow> nat \<Rightarrow> int list" where
  "remoteReadUint32 mem address count =
     map (\<lambda>i. remoteUint32 mem (address + 4 * int i)) [0..<count]"













section \<open>The capability gate and the offset arithmetic\<close>

lemma tableAt_unsigned:
  "tableAt unsignedArrays i =
     (if i = 0 then Some Uint8Array else if i = 1 then Some Uint16Array
      else if i = 3 then Some Uint32Array else None)"
proof -
  consider "i < 0" | "i = 0" | "i = 1" | "i = 2" | "i = 3" | "i = 4" | "i = 5" | "i = 6" | "i = 7" | "7 < i"
    by linarith
  then show ?thesis
    by cases (simp_all add: tableAt_def unsignedArrays_def)
qed

lemma tableAt_signed:
  "tableAt signedArrays i =
     (if i = 0 then Some Int8Array else if i = 1 then Some Int16Array
      else if i = 3 then Some Int32Array else None)"
proof -
  consider "i < 0" | "i = 0" | "i = 1" | "i = 2" | "i = 3" | "i = 4" | "i = 5" | "i = 6" | "i = 7" | "7 < i"
    by linarith
  then show ?thesis
    by cases (simp_all add: tableAt_def signedArrays_def)
qed

lemma tableAt_float:
  "tableAt floatArrays i =
     (if i = 0 then Some Float32Array else if i = 1 then Some Float64Array else None)"
proof -
  consider "i < 0" | "i = 0" | "i = 1" | "1 < i"
    by linarith
  then show ?thesis
    by cases (simp_all add: tableAt_def floatArrays_def)
qed

lemma getArrayViewer_cases:
  "getArrayViewer sz isUnsigned isFloat =
     (if isFloat then (if sz = 4 then Some Float32Array else if sz = 8 then Some Float64Array else None)
      else if isUnsigned then
        (if sz = 1 then Some Uint8Array else if sz = 2 then Some Uint16Array
         else if sz = 4 then Some Uint32Array else None)
      else
        (if sz = 1 then Some Int8Array else if sz = 2 then Some Int16Array
         else if sz = 4 then Some Int32Array else None))"
proof (cases isFloat)
  case True
  have "sz mod 4 = 0 \<and> sz div 4 - 1 = 0 \<longleftrightarrow> sz = 4" by presburger
  moreover have "sz mod 4 = 0 \<and> sz div 4 - 1 = 1 \<longleftrightarrow> sz = 8" by presburger
  ultimately show ?thesis using True
    by (auto simp: getArrayViewer_def tableAt_float)
next
  case False
  have "sz - 1 = 0 \<longleftrightarrow> sz = 1" "sz - 1 = 1 \<longleftrightarrow> sz = 2" "sz - 1 = 3 \<longleftrightarrow> sz = 4" by auto
  then show ?thesis using False
    by (simp add: getArrayViewer_def tableAt_unsigned tableAt_signed)
qed

text \<open>
  Claim C1, as the code has it. The viewer tables hold a constructor for integers of 1, 2 and
  4 bytes and for floats of 4 and 8 bytes; every other size, the 8-byte integers among them,
  has no viewer. A request without a viewer is declined by \<^verbatim>\<open>loadPage\<close> at once: the
  state, and so every cache entry and hit counter, is left as it was.
\<close>

theorem capability_gate:
  "(getArrayViewer sz isUnsigned isFloat = None \<longleftrightarrow>
      (if isFloat then sz \<noteq> 4 \<and> sz \<noteq> 8 else sz \<noteq> 1 \<and> sz \<noteq> 2 \<and> sz \<noteq> 4))
   \<and> (getArrayViewer sz isUnsigned isFloat = None \<longrightarrow>
      loadPage s page (getArrayViewer sz isUnsigned isFloat) c = (False, s))"
  by (simp add: getArrayViewer_cases loadPage_def)

theorem capability_gate_witness:
  "getArrayViewer 3 True False = None
   \<and> loadPage initialState 0 (getArrayViewer 3 True False) (ReadNumberCallback 0 3 0)
       = (False, initialState)"
  using capability_gate [of 3 True False initialState 0 "ReadNumberCallback 0 3 0"] by simp

text \<open>
  Claim C1 as stated fails: an 8-byte integer, unsigned or signed, has no viewer and is
  declined by the gate.
\<close>

theorem eight_byte_integers_declined:
  "getArrayViewer 8 True False = None \<and> getArrayViewer 8 False False = None
   \<and> \<not> fst (loadPage initialState 0 (getArrayViewer 8 True False) (ReadNumberCallback 0 8 0))
   \<and> \<not> fst (loadPage initialState 0 (getArrayViewer 8 False False) (ReadNumberCallback 0 8 0))"
  by (simp add: getArrayViewer_def tableAt_def unsignedArrays_def signedArrays_def loadPage_def)

lemma big_mod_nonneg: "0 \<le> a \<Longrightarrow> 0 < b \<Longrightarrow> big_mod a b = a mod b"
  by (cases "a = 0") (simp_all add: big_mod_def)

lemma big_divide_nonneg: "0 \<le> a \<Longrightarrow> 0 < b \<Longrightarrow> big_divide a b = a div b"
  by (cases "a = 0") (simp_all add: big_divide_def)

lemma getOffset_nonneg:
  "0 \<le> address \<Longrightarrow> 0 < sz \<Longrightarrow> getOffset address sz = (address mod 4096) div sz"
  by (simp add: getOffset_def PAGE_SIZE_def big_mod_nonneg big_divide_nonneg)

lemma getPage_nonneg: "0 \<le> address \<Longrightarrow> getPage address = address - address mod 4096"
  by (simp add: getPage_def PAGE_SIZE_def big_mod_nonneg)

lemma quotient_bounds:
  "q + r = (x::int) \<Longrightarrow> 0 \<le> r \<Longrightarrow> r < d \<Longrightarrow> q \<le> x \<and> x < q + d"
  by simp

text \<open>
  Claim C9: the offset of an address inside its page is the remainder of the address by the
  page size, divided by the element size and truncated; at 4 bytes per element the address
  4092 bytes into a page has offset 1023, the last element of the page.
\<close>

theorem offset_arithmetic:
  "(0 \<le> address \<and> 0 < sz \<longrightarrow>
      getOffset address sz = (address mod 4096) div sz
      \<and> sz * getOffset address sz \<le> address mod 4096
      \<and> address mod 4096 < sz * (getOffset address sz + 1))
   \<and> (0 \<le> pageBase \<and> getPage pageBase = pageBase \<longrightarrow>
      getOffset (pageBase + 4092) 4 = 1023
      \<and> getOffset (pageBase + 4092) 4 = int (viewLength Uint32Array (replicate (nat PAGE_SIZE) 0)) - 1)"
proof (intro conjI impI)
  assume a: "0 \<le> address \<and> 0 < sz"
  then show "getOffset address sz = (address mod 4096) div sz"
    by (simp add: getOffset_nonneg)
  define x where "x = address mod 4096"
  have e: "sz * (x div sz) + x mod sz = x" by (rule mult_div_mod_eq)
  have "0 \<le> x mod sz" "x mod sz < sz" using a by simp_all
  from quotient_bounds [OF e this]
  have "sz * (x div sz) \<le> x" "x < sz * (x div sz + 1)"
    by (simp_all add: distrib_left)
  then show "sz * getOffset address sz \<le> address mod 4096"
    and "address mod 4096 < sz * (getOffset address sz + 1)"
    using a by (simp_all add: getOffset_nonneg x_def)
next
  assume p: "0 \<le> pageBase \<and> getPage pageBase = pageBase"
  then have "pageBase - pageBase mod 4096 = pageBase"
    using getPage_nonneg [of pageBase] by simp
  then have "pageBase mod 4096 = 0" by simp
  then have m: "(pageBase + 4092) mod 4096 = 4092"
    using mod_add_left_eq [of pageBase 4096 4092] by simp
  from p show "getOffset (pageBase + 4092) 4 = 1023"
    by (simp add: getOffset_nonneg m)
  then show "getOffset (pageBase + 4092) 4 = int (viewLength Uint32Array (replicate (nat PAGE_SIZE) 0)) - 1"
    by (simp add: viewLength_def PAGE_SIZE_def)
qed

theorem offset_arithmetic_witness:
  "getOffset 8190 2 = 2047 \<and> getOffset (8192 + 4092) 4 = 1023"
  using offset_arithmetic [of 8190 2 8192]
  by (simp add: getPage_def big_mod_def PAGE_SIZE_def)

section \<open>Frames of the continuations\<close>

lemma emit_simps [simp]:
  "trace (emit e s) = trace s @ [e]"
  "entries (emit e s) = entries s"
  "cache (emit e s) = cache s"
  "arrayReads (emit e s) = arrayReads s"
  "pointerSize (emit e s) = pointerSize s"
  by (simp_all add: emit_def)

lemma updateEntry_simps [simp]:
  "trace (updateEntry n f s) = trace s"
  "entries (updateEntry n f s) = (entries s)[n := f (entries s ! n)]"
  "cache (updateEntry n f s) = cache s"
  "arrayReads (updateEntry n f s) = arrayReads s"
  "pointerSize (updateEntry n f s) = pointerSize s"
  by (simp_all add: updateEntry_def)

lemma updateRead_simps [simp]:
  "trace (updateRead n f s) = trace s"
  "entries (updateRead n f s) = entries s"
  "cache (updateRead n f s) = cache s"
  "arrayReads (updateRead n f s) = (arrayReads s)[n := f (arrayReads s ! n)]"
  "pointerSize (updateRead n f s) = pointerSize s"
  by (simp_all add: updateRead_def)

lemma pageLoaded_frame [simp]:
  "entries (pageLoaded s r i v) = entries s"
  "cache (pageLoaded s r i v) = cache s"
  "pointerSize (pageLoaded s r i v) = pointerSize s"
  "length (arrayReads (pageLoaded s r i v)) = length (arrayReads s)"
  by (simp_all add: pageLoaded_def Let_def)

lemma invokeCallback_frame [simp]:
  "entries (invokeCallback s c v) = entries s"
  "cache (invokeCallback s c v) = cache s"
  "pointerSize (invokeCallback s c v) = pointerSize s"
  "length (arrayReads (invokeCallback s c v)) = length (arrayReads s)"
  by (cases "(s, c, v)" rule: invokeCallback.cases; simp)+

lemma memoryCallback_frame [simp]:
  "entries (memoryCallback s w m) = entries s"
  "cache (memoryCallback s w m) = cache s"
  "pointerSize (memoryCallback s w m) = pointerSize s"
  "length (arrayReads (memoryCallback s w m)) = length (arrayReads s)"
  by (cases "(s, w, m)" rule: memoryCallback.cases; simp)+

lemma notifyWaiters_frame [simp]:
  "entries (notifyWaiters s ws m) = entries s"
  "cache (notifyWaiters s ws m) = cache s"
  "pointerSize (notifyWaiters s ws m) = pointerSize s"
  "length (arrayReads (notifyWaiters s ws m)) = length (arrayReads s)"
  by (induction ws arbitrary: s; simp)+

lemma notifyWaiters_append:
  "notifyWaiters s (ws @ ws') m = notifyWaiters (notifyWaiters s ws m) ws' m"
  by (induction ws arbitrary: s) simp_all


lemma notifyWaiters_foldl:
  "notifyWaiters s ws m = foldl (\<lambda>t w. memoryCallback t w m) s ws"
  by (induction ws arbitrary: s) simp_all

lemma notifyWaiters_numbers:
  "notifyWaiters s (map (\<lambda>(v, a, z, cb). (v, ReadNumberCallback a z cb)) reads) m =
     s\<lparr>trace := trace s @
        map (\<lambda>(v, a, z, cb). Delivered cb
              (case m of FailedResult e \<Rightarrow> ErrorResult e
               | ArrayBuffer buf \<Rightarrow> ValueResult (viewIndex v buf (getOffset a z)))) reads\<rparr>"
proof (induction reads arbitrary: s)
  case Nil
  then show ?case by simp
next
  case (Cons x reads)
  obtain v a z cb where x: "x = (v, a, z, cb)" by (cases x) auto
  show ?case
    using Cons.IH by (cases m) (simp_all add: x emit_def)
qed

text \<open>Admission of a page that has no entry: the first touch creates the entry and fetches.\<close>

lemma loadPage_fresh:
  assumes "cache s page = None"
  shows "loadPage s page (Some v) c =
    (True,
     s\<lparr>entries := entries s @ [newEntry\<lparr>hits := 1, inflight := True, callbacks := [(v, c)]\<rparr>],
       cache := (cache s)(page \<mapsto> length (entries s)),
       trace := trace s @ [ReadArrayRequest page RETRIEVAL_SIZE True False
                  (PAGE_SIZE div RETRIEVAL_SIZE) (PageFetched (length (entries s)))]\<rparr>)"
  using assms
  by (simp add: loadPage_def getCacheEntry_def Let_def updateEntry_def emit_def newEntry_def
      CACHE_TRIGGER_def)

text \<open>
  Claim C6: when the answer to a page fetch arrives, with bytes or with a failure, the final
  state is stored in the entry, every continuation queued on the entry is called with it, from
  the first queued to the last, and the queue is emptied. For queued single-value reads the
  calls of the callers' continuations appear in the trace in the order of the queue.
\<close>

theorem waiters_notified_in_order:
  assumes "entry < length (entries s)"
  shows "callbacks (entries (pageFetched s entry r) ! entry) = []
   \<and> memory (entries (pageFetched s entry r) ! entry) = Some (fetchedMemory r)
   \<and> pageFetched s entry r =
       updateEntry entry (\<lambda>e. e\<lparr>callbacks := []\<rparr>)
         (foldl (\<lambda>t w. memoryCallback t w (fetchedMemory r))
            (updateEntry entry (storeFetched r) s) (callbacks (entries s ! entry)))
   \<and> (callbacks (entries s ! entry) = map (\<lambda>(v, a, z, cb). (v, ReadNumberCallback a z cb)) reads
        \<longrightarrow> trace (pageFetched s entry r) = trace s @
          map (\<lambda>(v, a, z, cb). Delivered cb
                (case fetchedMemory r of FailedResult e \<Rightarrow> ErrorResult e
                 | ArrayBuffer buf \<Rightarrow> ValueResult (viewIndex v buf (getOffset a z)))) reads)"
proof -
  have cb: "callbacks (storeFetched r e) = callbacks e" for e
    by (cases r) simp_all
  have mem: "memory (storeFetched r e) = Some (fetchedMemory r)" for e
    by (cases r) simp_all
  show ?thesis
    using assms
    by (simp add: pageFetched_def Let_def cb mem notifyWaiters_foldl [symmetric]
        notifyWaiters_numbers)
qed

theorem waiters_notified_in_order_witness:
  "trace (pageFetched (readNumber (readNumber initialState 8 4 True False 5) 12 2 False False 6) 0
            (FetchFailed (RemoteReadFailure 3)))
   = [ReadArrayRequest 0 4 True False 1024 (PageFetched 0),
      Delivered 5 (ErrorResult (RemoteReadFailure 3)),
      Delivered 6 (ErrorResult (RemoteReadFailure 3))]"
proof -
  let ?s1 = "readNumber initialState 8 4 True False 5"
  let ?s2 = "readNumber ?s1 12 2 False False 6"
  have p: "getPage 8 = 0" "getPage 12 = 0"
    by (simp_all add: getPage_def big_mod_def PAGE_SIZE_def)
  have s1: "?s1 = \<lparr>pointerSize = None, cache = (\<lambda>p. None)(0 \<mapsto> 0),
      entries = [\<lparr>hits = 1, memory = None, error = None, inflight = True,
                  callbacks = [(Uint32Array, ReadNumberCallback 8 4 5)]\<rparr>],
      arrayReads = [], trace = [ReadArrayRequest 0 4 True False 1024 (PageFetched 0)]\<rparr>"
    by (simp add: readNumber_def getArrayViewer_cases p loadPage_fresh initialState_def
        newEntry_def PAGE_SIZE_def RETRIEVAL_SIZE_def)
  have s2: "?s2 = \<lparr>pointerSize = None, cache = (\<lambda>p. None)(0 \<mapsto> 0),
      entries = [\<lparr>hits = 2, memory = None, error = None, inflight = True,
                  callbacks = [(Uint32Array, ReadNumberCallback 8 4 5),
                               (Int16Array, ReadNumberCallback 12 2 6)]\<rparr>],
      arrayReads = [], trace = [ReadArrayRequest 0 4 True False 1024 (PageFetched 0)]\<rparr>"
    unfolding s1
    by (simp add: readNumber_def getArrayViewer_cases p loadPage_def getCacheEntry_def
        updateEntry_def CACHE_TRIGGER_def)
  have "0 < length (entries ?s2)" unfolding s2 by simp
  from waiters_notified_in_order [OF this, of "FetchFailed (RemoteReadFailure 3)"
      "[(Uint32Array, 8, 4, 5), (Int16Array, 12, 2, 6)]"]
  show ?thesis unfolding s2 by simp
qed

lemma pagesBelow_empty: "pagesBelow a a = []"
  by (simp add: pagesBelow.simps [of a a])

lemma readArray_nothing:
  assumes "big_mod address PAGE_SIZE = 0"
  shows "readArray s address itemSize isUnsigned isFloat 0 cb =
      s\<lparr>arrayReads := arrayReads s @ [newArrayRead address itemSize 0 cb 0]\<rparr>"
  using assms
  by (simp add: readArray_def calculatePagesForArray_def getPage_def pagesBelow_empty
      requestPages_def Let_def newArrayRead_def)

section \<open>Assembling an array\<close>

lemma upto_as_upt: "0 \<le> i \<Longrightarrow> [i..j - 1] = map int [nat i..<nat j]"
proof (induction "nat (j - i)" arbitrary: i)
  case 0
  then show ?case by simp
next
  case (Suc n)
  then have lt: "i < j" by linarith
  have n: "n = nat (j - (i + 1))" using Suc.hyps(2) by linarith
  have "[i..j - 1] = i # [i + 1..j - 1]" using lt by (simp add: upto_rec1)
  also have "[i + 1..j - 1] = map int [nat (i + 1)..<nat j]"
    using Suc.hyps(1) [OF n] Suc.prems by simp
  also have "i # map int [nat (i + 1)..<nat j] = map int [nat i..<nat j]"
    using lt Suc.prems by (simp add: upt_conv_Cons nat_add_distrib)
  finally show ?case .
qed

lemma take_from_upt: "take r [i..<n] = [i..<min (i + r) n]"
  by (cases "i + r \<le> n") (simp_all add: min_def)

lemma gathered_range:
  assumes "0 \<le> idx" "0 \<le> r"
  shows "map (viewIndex v buf) [idx..min (idx + r) (int (viewLength v buf)) - 1]
     = take (nat r) (drop (nat idx) (viewElements v buf))"
proof -
  have m: "nat (min (idx + r) (int (viewLength v buf))) = min (nat idx + nat r) (viewLength v buf)"
    using assms by linarith
  show ?thesis
    using assms
    by (simp add: upto_as_upt viewElements_def take_map drop_map take_from_upt m o_def)
qed

lemma gather_all:
  assumes "0 \<le> idx" "int (length result) \<le> count"
    and "\<forall>buf \<in> set bufs. idx \<le> int (viewLength v buf)"
  shows "foldl (gatherView count) (result, idx, None) (map (TypedArray v) bufs)
     = (result @ take (nat count - length result)
                   (drop (nat idx) (concat (map (viewElements v) bufs))),
        (if bufs = [] then idx else 0), None)"
  using assms
proof (induction bufs arbitrary: result idx)
  case Nil
  then show ?case by simp
next
  case (Cons buf bufs)
  let ?got = "take (nat (count - int (length result))) (drop (nat idx) (viewElements v buf))"
  have g: "gatherView count (result, idx, None) (TypedArray v buf) = (result @ ?got, 0, None)"
    using Cons.prems by (simp add: Let_def gathered_range)
  have len: "int (length (result @ ?got)) \<le> count"
    using Cons.prems by simp
  have "idx \<le> int (viewLength v buf)" using Cons.prems(3) by simp
  then have i: "nat idx - viewLength v buf = 0" by linarith
  have n: "nat (count - int (length result)) = nat count - length result"
    by simp
  show ?case
    apply (simp only: list.map foldl.simps g)
    apply (subst Cons.IH [OF _ len])
      apply simp
     apply simp
    using i
    apply (simp add: n viewElements_def min_def)
    done
qed


lemma pages_cover: "lastAddress - currentPage \<le> PAGE_SIZE * int (length (pagesBelow currentPage lastAddress))"
proof (induction currentPage lastAddress rule: pagesBelow.induct)
  case (1 currentPage lastAddress)
  show ?case
  proof (cases "currentPage < lastAddress")
    case True
    from "1.IH" [OF True] show ?thesis
      by (subst pagesBelow.simps) (simp add: True PAGE_SIZE_def)
  next
    case False
    then show ?thesis
      by (subst pagesBelow.simps) simp
  qed
qed

lemma viewer_size:
  "getArrayViewer itemSize isUnsigned isFloat = Some v \<Longrightarrow> itemSize = int (BYTES_PER_ELEMENT v)"
  by (auto simp: getArrayViewer_cases split: if_splits)

lemma page_capacity:
  "length buf = nat PAGE_SIZE \<Longrightarrow> int (BYTES_PER_ELEMENT v) * int (viewLength v buf) = PAGE_SIZE"
  by (cases v) (simp_all add: viewLength_def PAGE_SIZE_def)

lemma length_viewElements [simp]: "length (viewElements v buf) = viewLength v buf"
  by (simp add: viewElements_def)

lemma length_all_elements:
  "\<forall>buf \<in> set bufs. viewLength v buf = n \<Longrightarrow>
   length (concat (map (viewElements v) bufs)) = length bufs * n"
  by (induction bufs) simp_all

lemma cancel_factor_less: "0 < z \<Longrightarrow> z * a \<le> x \<Longrightarrow> x < z * b \<Longrightarrow> a < (b::int)"
  by (metis le_less_trans mult_less_cancel_left_pos)

lemma cancel_factor_le: "0 < z \<Longrightarrow> z * a \<le> z * b \<Longrightarrow> a \<le> (b::int)"
  by simp

lemma offset_within_page:
  assumes "0 \<le> address" "0 < sz" "sz * n = PAGE_SIZE"
  shows "0 \<le> getOffset address sz" "getOffset address sz < n"
    "sz * getOffset address sz \<le> address - getPage address"
proof -
  define x where "x = address mod 4096"
  have x: "0 \<le> x" "x < sz * n" using assms(3) by (simp_all add: x_def PAGE_SIZE_def)
  have off: "getOffset address sz = x div sz"
    using assms by (simp add: getOffset_nonneg x_def)
  have e: "sz * (x div sz) + x mod sz = x" by (rule mult_div_mod_eq)
  have "0 \<le> x mod sz" "x mod sz < sz" using assms(2) by simp_all
  from quotient_bounds [OF e this] have le: "sz * (x div sz) \<le> x" by simp
  show "0 \<le> getOffset address sz"
    unfolding off using x(1) assms(2) by (simp add: pos_imp_zdiv_nonneg_iff)
  show "getOffset address sz < n"
    unfolding off by (rule cancel_factor_less [OF assms(2) le x(2)])
  show "sz * getOffset address sz \<le> address - getPage address"
    unfolding off using le assms(1) by (simp add: getPage_nonneg x_def)
qed


lemma arrayLoaded_of_bytes:
  assumes "0 \<le> address" "0 \<le> count"
    and "getArrayViewer itemSize isUnsigned isFloat = Some v"
    and "length bufs = length (calculatePagesForArray address itemSize count)"
    and "\<forall>buf \<in> set bufs. length buf = nat PAGE_SIZE"
  shows "arrayLoaded address itemSize count (map (TypedArray v) bufs) =
      ArrayResult (take (nat count) (drop (nat (getOffset address itemSize))
         (concat (map (viewElements v) bufs))))
    \<and> length (take (nat count) (drop (nat (getOffset address itemSize))
         (concat (map (viewElements v) bufs)))) = nat count"
proof -
  define n where "n = int (nat PAGE_SIZE div BYTES_PER_ELEMENT v)"
  have sz: "itemSize = int (BYTES_PER_ELEMENT v)" by (rule viewer_size [OF assms(3)])
  have pos: "0 < itemSize" unfolding sz by (cases v) simp_all
  have cap: "viewLength v buf = nat n" if "buf \<in> set bufs" for buf
    using that assms(5) by (simp add: viewLength_def n_def)
  have szn: "itemSize * n = PAGE_SIZE"
    unfolding sz n_def by (cases v) (simp_all add: PAGE_SIZE_def)
  note off = offset_within_page [OF assms(1) pos szn]
  have bound: "\<forall>buf \<in> set bufs. getOffset address itemSize \<le> int (viewLength v buf)"
    using off(2) cap by simp
  have first: "arrayLoaded address itemSize count (map (TypedArray v) bufs) =
      ArrayResult (take (nat count) (drop (nat (getOffset address itemSize))
         (concat (map (viewElements v) bufs))))"
    using gather_all [OF off(1) _ bound, of "[]" count] assms(2)
    by (simp add: arrayLoaded_def)
  have cover: "address + itemSize * count - getPage address \<le> PAGE_SIZE * int (length bufs)"
    using pages_cover [of "address + itemSize * count" "getPage address"] assms(4)
    by (simp add: calculatePagesForArray_def)
  have "itemSize * (getOffset address itemSize + count) \<le> itemSize * (n * int (length bufs))"
    using cover off(3) by (simp add: szn [symmetric] distrib_left mult.assoc)
  then have "getOffset address itemSize + count \<le> n * int (length bufs)"
    by (rule cancel_factor_le [OF pos])
  moreover have "length (concat (map (viewElements v) bufs)) = length bufs * nat n"
    by (rule length_all_elements) (simp add: cap)
  moreover have "0 \<le> n" by (simp add: n_def)
  ultimately have "nat (getOffset address itemSize) + nat count
      \<le> length (concat (map (viewElements v) bufs))"
    using off(1) assms(2)
    by (metis mult.commute nat_add_distrib nat_int nat_mono nat_mult_distrib)
  then show ?thesis using first by simp
qed

section \<open>Frames of an admission\<close>

lemma loadPage_None [simp]: "loadPage s page None c = (False, s)"
  by (simp add: loadPage_def)

lemma loadPage_Some:
  "loadPage s page (Some v) c =
     admitEntry (snd (touchEntry s page)) (fst (touchEntry s page)) page v c"
  by (simp add: loadPage_def touchEntry_def admitEntry_def Let_def case_prod_beta)

lemma touchEntry_known:
  "cache s page = Some entry \<Longrightarrow>
   touchEntry s page = (entry, updateEntry entry (\<lambda>e. e\<lparr>hits := hits e + 1\<rparr>) s)"
  by (simp add: touchEntry_def getCacheEntry_def)

lemma touchEntry_fresh:
  "cache s page = None \<Longrightarrow>
   touchEntry s page =
     (length (entries s),
      s\<lparr>entries := entries s @ [newEntry\<lparr>hits := 1\<rparr>],
        cache := (cache s)(page \<mapsto> length (entries s))\<rparr>)"
  by (simp add: touchEntry_def getCacheEntry_def updateEntry_def newEntry_def)

lemma touchEntry_frame [simp]:
  "trace (snd (touchEntry s page)) = trace s"
  "arrayReads (snd (touchEntry s page)) = arrayReads s"
  "pointerSize (snd (touchEntry s page)) = pointerSize s"
  by (cases "cache s page"; simp add: touchEntry_known touchEntry_fresh)+


lemma nth_update_field:
  "n < length xs \<Longrightarrow> (\<And>x. h (g x) = h x) \<Longrightarrow> h (xs[a := g (xs ! a)] ! n) = h (xs ! n)"
  by (cases "a = n") simp_all


lemma eligible_update:
  "n < length xs \<Longrightarrow> areAllPagesEligible y = areAllPagesEligible (xs ! a) \<Longrightarrow>
   areAllPagesEligible (xs[a := y] ! n) = areAllPagesEligible (xs ! n)"
  by (cases "a = n") simp_all



lemma map_update_same:
  "f (g (xs ! n)) = f (xs ! n) \<Longrightarrow> map f (xs[n := g (xs ! n)]) = map f xs"
  by (cases "n < length xs") (simp_all add: map_update list_update_same_conv list_update_beyond)

lemma allWaiters_alt: "allWaiters s = \<Union> (set (map (\<lambda>e. set (callbacks e)) (entries s)))"
  by (simp add: allWaiters_def)

lemma allWaiters_same:
  "callbacks (f (entries s ! n)) = callbacks (entries s ! n) \<Longrightarrow>
   allWaiters (updateEntry n f s) = allWaiters s"
  unfolding allWaiters_alt
  by (simp add: map_update_same [where f = "\<lambda>e. set (callbacks e)"])

lemma allWaiters_queue:
  "callbacks (f (entries s ! n)) = callbacks (entries s ! n) @ [w] \<Longrightarrow>
   allWaiters (updateEntry n f s) \<subseteq> insert w (allWaiters s)"
proof (cases "n < length (entries s)")
  case True
  assume c: "callbacks (f (entries s ! n)) = callbacks (entries s ! n) @ [w]"
  have "set ((entries s)[n := f (entries s ! n)]) \<subseteq> insert (f (entries s ! n)) (set (entries s))"
    by (rule set_update_subset_insert)
  moreover have "entries s ! n \<in> set (entries s)" using True by simp
  ultimately show ?thesis
    using c by (fastforce simp: allWaiters_def)
next
  case False
  then show ?thesis by (auto simp: allWaiters_def list_update_beyond)
qed

lemma allWaiters_frame [simp]:
  "allWaiters (emit e s) = allWaiters s"
  "allWaiters (updateRead n g s) = allWaiters s"
  "allWaiters (pageLoaded s r i v) = allWaiters s"
  "allWaiters (invokeCallback s c v) = allWaiters s"
  "allWaiters (memoryCallback s w m) = allWaiters s"
  "allWaiters (notifyWaiters s ws m) = allWaiters s"
  by (simp_all add: allWaiters_def)

lemma touchEntry_allWaiters [simp]:
  "allWaiters (snd (touchEntry s page)) = allWaiters s"
proof (cases "cache s page")
  case None
  then show ?thesis by (simp add: touchEntry_fresh allWaiters_def newEntry_def)
next
  case (Some entry)
  then show ?thesis by (simp add: touchEntry_known allWaiters_same)
qed


lemma ineligible_pageLoaded: "ineligible r s \<Longrightarrow> ineligible r (pageLoaded s r' i v)"
  by (simp add: ineligible_def pageLoaded_def Let_def eligible_update)

lemma ineligible_frame [simp]:
  "ineligible r (updateEntry n f s) = ineligible r s"
  "ineligible r (emit e s) = ineligible r s"
  by (simp_all add: ineligible_def)

lemma ineligible_invokeCallback: "ineligible r s \<Longrightarrow> ineligible r (invokeCallback s c v)"
  by (cases "(s, c, v)" rule: invokeCallback.cases) (simp_all add: ineligible_pageLoaded)

lemma ineligible_memoryCallback: "ineligible r s \<Longrightarrow> ineligible r (memoryCallback s w m)"
  by (cases "(s, w, m)" rule: memoryCallback.cases) (simp_all add: ineligible_invokeCallback)

lemma ineligible_notifyWaiters: "ineligible r s \<Longrightarrow> ineligible r (notifyWaiters s ws m)"
  by (induction ws arbitrary: s) (simp_all add: ineligible_memoryCallback)

lemma admitEntry_frame [simp]:
  "length (entries (snd (admitEntry s entry page v c))) = length (entries s)"
  "cache (snd (admitEntry s entry page v c)) = cache s"
  "pointerSize (snd (admitEntry s entry page v c)) = pointerSize s"
  "length (arrayReads (snd (admitEntry s entry page v c))) = length (arrayReads s)"
  by (simp_all add: admitEntry_def split: option.splits)


lemma admitEntry_ineligible:
  "ineligible r s \<Longrightarrow> ineligible r (snd (admitEntry s entry page v c))"
  by (simp add: admitEntry_def ineligible_memoryCallback split: option.splits)

lemma admitEntry_allWaiters:
  "allWaiters (snd (admitEntry s entry page v c)) \<subseteq> insert (v, c) (allWaiters s)"
  by (auto simp: admitEntry_def split: option.splits
      dest: subsetD [OF allWaiters_queue, rotated])





lemma loadPage_frame [simp]:
  "pointerSize (snd (loadPage s page viewer c)) = pointerSize s"
  "length (arrayReads (snd (loadPage s page viewer c))) = length (arrayReads s)"
  by (cases viewer; simp add: loadPage_Some)+

lemma ineligible_touchEntry [simp]:
  "ineligible r (snd (touchEntry s page)) = ineligible r s"
  by (simp add: ineligible_def)

lemma loadPage_ineligible:
  "ineligible r s \<Longrightarrow> ineligible r (snd (loadPage s page viewer c))"
  by (cases viewer) (simp_all add: loadPage_Some admitEntry_ineligible)

lemma loadPage_allWaiters:
  "allWaiters (snd (loadPage s page viewer c)) \<subseteq> allWaiters s \<union> {w. snd w = c}"
proof (cases viewer)
  case None
  then show ?thesis by simp
next
  case (Some v)
  show ?thesis
    using admitEntry_allWaiters [of "snd (touchEntry s page)" "fst (touchEntry s page)" page v c]
    by (auto simp: Some loadPage_Some)
qed

lemma awaited_frame [simp]:
  "awaited r (emit e s) = awaited r s"
  "awaited r (updateRead n g s) = awaited r s"
  "awaited r (pageLoaded s r' i v) = awaited r s"
  "awaited r (memoryCallback s w m) = awaited r s"
  "awaited r (notifyWaiters s ws m) = awaited r s"
  by (simp_all add: awaited_def)

lemma loadPage_awaited:
  "awaited r (snd (loadPage s page viewer c)) \<Longrightarrow> awaited r s \<or> (\<exists>i. c = PageLoaded r i)"
  using loadPage_allWaiters [of s page viewer c] by (fastforce simp: awaited_def)




lemma readNumber_frame [simp]:
  "pointerSize (readNumber s address sz u f cb) = pointerSize s"
  "length (arrayReads (readNumber s address sz u f cb)) = length (arrayReads s)"
  by (simp_all add: readNumber_def Let_def case_prod_beta)

lemma readNumber_ineligible:
  "ineligible r s \<Longrightarrow> ineligible r (readNumber s address sz u f cb)"
  by (simp add: readNumber_def Let_def case_prod_beta loadPage_ineligible)

lemma readNumber_awaited:
  "awaited r (readNumber s address sz u f cb) \<Longrightarrow> awaited r s"
  using loadPage_awaited [of r s "getPage address" "getArrayViewer sz u f" "ReadNumberCallback address sz cb"]
  by (simp add: readNumber_def Let_def case_prod_beta split: if_splits)

section \<open>Frames of the reads and of the answers\<close>

lemma requestEach_Cons:
  "requestEach s r viewer i (page # pages) =
     requestEach (requestOne s r viewer i page) r viewer (Suc i) pages"
  by (simp add: requestOne_def Let_def case_prod_beta)

lemma admissions_Cons:
  "admissions s r viewer i (page # pages) =
     fst (loadPage s page viewer (PageLoaded r i))
       # admissions (requestOne s r viewer i page) r viewer (Suc i) pages"
  by (simp add: requestOne_def Let_def case_prod_beta)

declare requestEach.simps(2) [simp del] admissions.simps(2) [simp del]




lemma requestOne_frame [simp]:
  "pointerSize (requestOne s r viewer i page) = pointerSize s"
  "length (arrayReads (requestOne s r viewer i page)) = length (arrayReads s)"
  by (simp_all add: requestOne_def case_prod_beta)

lemma ineligible_decline:
  "ineligible r' s \<Longrightarrow> ineligible r' (updateRead r (\<lambda>a. a\<lparr>areAllPagesEligible := False\<rparr>) s)"
  by (cases "r = r'") (simp_all add: ineligible_def)

lemma requestOne_ineligible:
  "ineligible r' s \<Longrightarrow> ineligible r' (requestOne s r viewer i page)"
  by (simp add: requestOne_def case_prod_beta loadPage_ineligible ineligible_decline)

lemma requestOne_awaited:
  "awaited r' (requestOne s r viewer i page) \<Longrightarrow> awaited r' s \<or> r' = r"
  using loadPage_awaited [of r' s page viewer "PageLoaded r i"]
  by (auto simp: requestOne_def case_prod_beta split: if_splits)




lemma requestEach_frame [simp]:
  "pointerSize (requestEach s r viewer i pages) = pointerSize s"
  "length (arrayReads (requestEach s r viewer i pages)) = length (arrayReads s)"
  by (induction pages arbitrary: s i; simp only: requestEach_Cons requestOne_frame requestEach.simps)+

lemma requestEach_ineligible:
  "ineligible r' s \<Longrightarrow> ineligible r' (requestEach s r viewer i pages)"
  by (induction pages arbitrary: s i)
     (simp, simp only: requestEach_Cons requestOne_ineligible)

lemma requestEach_awaited:
  "awaited r' (requestEach s r viewer i pages) \<Longrightarrow> awaited r' s \<or> r' = r"
proof (induction pages arbitrary: s i)
  case Nil
  then show ?case by simp
next
  case (Cons page pages)
  from Cons.IH [of "requestOne s r viewer i page" "Suc i"] Cons.prems
  have "awaited r' (requestOne s r viewer i page) \<or> r' = r"
    unfolding requestEach_Cons by blast
  then show ?case using requestOne_awaited by blast
qed


text \<open>Array reads.\<close>

lemma allocated_simps [simp]:
  "trace (allocated s a) = trace s"
  "entries (allocated s a) = entries s"
  "cache (allocated s a) = cache s"
  "pointerSize (allocated s a) = pointerSize s"
  "arrayReads (allocated s a) = arrayReads s @ [a]"
  "allWaiters (allocated s a) = allWaiters s"
  "awaited r (allocated s a) = awaited r s"
  by (simp_all add: allocated_def allWaiters_def awaited_def)

lemma allocated_ineligible: "ineligible r s \<Longrightarrow> ineligible r (allocated s a)"
  by (simp add: ineligible_def nth_append)

lemma readArray_alt:
  "readArray s address itemSize u f count cb =
     (let pages = calculatePagesForArray address itemSize count;
          s1 = requestEach (allocated s (newArrayRead address itemSize count cb (length pages)))
                 (length (arrayReads s)) (getArrayViewer itemSize u f) 0 pages
      in if \<not> areAllPagesEligible (arrayReads s1 ! length (arrayReads s))
         then emit (ReadArrayRequest address itemSize u f count (UserCallback cb)) s1
         else s1)"
  by (simp add: readArray_def requestPages_def Let_def allocated_def)




lemma readArray_frame [simp]:
  "pointerSize (readArray s address itemSize u f count cb) = pointerSize s"
  "length (arrayReads (readArray s address itemSize u f count cb)) = Suc (length (arrayReads s))"
  by (simp_all add: readArray_alt Let_def)

lemma readArray_ineligible:
  "ineligible r s \<Longrightarrow> ineligible r (readArray s address itemSize u f count cb)"
  by (simp add: readArray_alt Let_def requestEach_ineligible allocated_ineligible)

lemma readArray_awaited:
  "awaited r (readArray s address itemSize u f count cb) \<Longrightarrow>
   awaited r s \<or> r = length (arrayReads s)"
  using requestEach_awaited [of r "allocated s a" "length (arrayReads s)" for a]
  by (fastforce simp: readArray_alt Let_def split: if_splits)




lemma readPointer_frame [simp]:
  "pointerSize (readPointer s address cb) = pointerSize s"
  "length (arrayReads (readPointer s address cb)) = length (arrayReads s)"
  by (simp_all add: readPointer_def split: option.splits)

lemma readPointer_ineligible:
  "ineligible r s \<Longrightarrow> ineligible r (readPointer s address cb)"
  by (simp add: readPointer_def readNumber_ineligible split: option.splits)

lemma readPointer_awaited:
  "awaited r (readPointer s address cb) \<Longrightarrow> awaited r s"
  by (auto simp: readPointer_def split: option.splits dest: readNumber_awaited)

lemma with_pointerSize [simp]:
  "entries (s\<lparr>pointerSize := x\<rparr>) = entries s"
  "ineligible r (s\<lparr>pointerSize := x\<rparr>) = ineligible r s"
  "awaited r (s\<lparr>pointerSize := x\<rparr>) = awaited r s"
  by (simp_all add: ineligible_def awaited_def allWaiters_def)

text \<open>The answer to a page fetch.\<close>

lemma callbacks_storeFetched [simp]: "callbacks (storeFetched r e) = callbacks e"
  by (cases r) simp_all

lemma memory_storeFetched [simp]: "memory (storeFetched r e) = Some (fetchedMemory r)"
  by (cases r) simp_all

lemma hits_storeFetched [simp]: "hits (storeFetched r e) = hits e"
  by (cases r) simp_all

lemma pageFetched_frame [simp]:
  "length (entries (pageFetched s entry r)) = length (entries s)"
  "cache (pageFetched s entry r) = cache s"
  "pointerSize (pageFetched s entry r) = pointerSize s"
  "length (arrayReads (pageFetched s entry r)) = length (arrayReads s)"
  by (simp_all add: pageFetched_def Let_def)


lemma pageFetched_ineligible:
  "ineligible r' s \<Longrightarrow> ineligible r' (pageFetched s entry r)"
  by (simp add: pageFetched_def Let_def ineligible_notifyWaiters)

lemma allWaiters_drop:
  "callbacks (f (entries s ! n)) = [] \<Longrightarrow> allWaiters (updateEntry n f s) \<subseteq> allWaiters s"
proof (cases "n < length (entries s)")
  case True
  assume c: "callbacks (f (entries s ! n)) = []"
  have "set ((entries s)[n := f (entries s ! n)]) \<subseteq> insert (f (entries s ! n)) (set (entries s))"
    by (rule set_update_subset_insert)
  then show ?thesis using c by (fastforce simp: allWaiters_def)
next
  case False
  then show ?thesis by (auto simp: allWaiters_def list_update_beyond)
qed

lemma pageFetched_allWaiters: "allWaiters (pageFetched s entry r) \<subseteq> allWaiters s"
proof -
  let ?s2 = "notifyWaiters (updateEntry entry (storeFetched r) s)
      (callbacks (entries (updateEntry entry (storeFetched r) s) ! entry)) (fetchedMemory r)"
  have "allWaiters (pageFetched s entry r) \<subseteq> allWaiters ?s2"
    unfolding pageFetched_def Let_def by (rule allWaiters_drop) simp
  also have "allWaiters ?s2 = allWaiters s"
    by (simp add: allWaiters_same)
  finally show ?thesis .
qed

lemma pageFetched_awaited: "awaited r' (pageFetched s entry r) \<Longrightarrow> awaited r' s"
  using pageFetched_allWaiters [of s entry r] by (auto simp: awaited_def)

section \<open>Frames of runs\<close>


lemma perform_reads_length: "length (arrayReads s) \<le> length (arrayReads (perform s a))"
  by (cases a) (simp_all add: clearCache_def pointerSizeReceived_def)



lemma perform_ineligible: "ineligible r s \<Longrightarrow> ineligible r (perform s a)"
proof (cases a)
  case (PointerSizeAnswer address cb answer)
  assume "ineligible r s"
  then have "ineligible r (s\<lparr>pointerSize := answer\<rparr>)" by simp
  from readPointer_ineligible [OF this] show ?thesis
    by (simp add: PointerSizeAnswer pointerSizeReceived_def)
next
  case Break
  assume "ineligible r s"
  then show ?thesis by (simp add: Break clearCache_def ineligible_def)
qed (simp_all add: readPointer_ineligible readNumber_ineligible readArray_ineligible
       pageFetched_ineligible)

lemma perform_awaited:
  assumes "awaited r (perform s a)"
  shows "awaited r s \<or> (r = length (arrayReads s) \<and> r < length (arrayReads (perform s a)))"
proof (cases a)
  case (PointerSizeAnswer address cb answer)
  then have "awaited r (readPointer (s\<lparr>pointerSize := answer\<rparr>) address cb)"
    using assms by (simp add: pointerSizeReceived_def)
  from readPointer_awaited [OF this] show ?thesis by simp
next
  case Break
  then show ?thesis using assms by (simp add: clearCache_def awaited_def allWaiters_def)
next
  case (ReadPointer address cb)
  then show ?thesis using assms readPointer_awaited by auto
next
  case (ReadNumber address sz u f cb)
  then show ?thesis using assms readNumber_awaited by auto
next
  case (ReadArray address itemSize u f count cb)
  then show ?thesis using assms readArray_awaited [of r s address itemSize u f count cb] by auto
next
  case (PageAnswer entry res)
  then show ?thesis using assms pageFetched_awaited by auto
qed

text \<open>Runs.\<close>

lemma execute_ineligible:
  "execute s as = Some s' \<Longrightarrow> ineligible r s \<Longrightarrow> ineligible r s'"
  by (induction as arbitrary: s) (auto simp: perform_ineligible split: if_splits)



lemma execute_not_awaited:
  "execute s as = Some s' \<Longrightarrow> r < length (arrayReads s) \<Longrightarrow> \<not> awaited r s \<Longrightarrow>
   r < length (arrayReads s') \<and> \<not> awaited r s'"
proof (induction as arbitrary: s)
  case Nil
  then show ?case by simp
next
  case (Cons a as)
  then have ex: "execute (perform s a) as = Some s'" by (simp split: if_splits)
  have l: "r < length (arrayReads (perform s a))"
    using Cons.prems(2) perform_reads_length [of s a] by simp
  have "\<not> awaited r (perform s a)"
    using perform_awaited [of r s a] Cons.prems(2,3) by auto
  from Cons.IH [OF ex l this] show ?case .
qed

lemma execute_waiters_known:
  "execute s as = Some s' \<Longrightarrow> (\<And>r. awaited r s \<Longrightarrow> r < length (arrayReads s)) \<Longrightarrow>
   awaited r s' \<Longrightarrow> r < length (arrayReads s')"
proof (induction as arbitrary: s)
  case Nil
  then show ?case by simp
next
  case (Cons a as)
  then have ex: "execute (perform s a) as = Some s'" by (simp split: if_splits)
  have "r' < length (arrayReads (perform s a))" if "awaited r' (perform s a)" for r'
    using perform_awaited [OF that] Cons.prems(2) [of r'] perform_reads_length [of s a]
    by auto
  from Cons.IH [OF ex this Cons.prems(3)] show ?case by simp
qed

section \<open>Invalidation\<close>

lemma perform_pointerSize:
  "(\<And>address cb answer. a \<noteq> PointerSizeAnswer address cb answer) \<Longrightarrow>
   pointerSize (perform s a) = pointerSize s"
  by (cases a) (auto simp: clearCache_def)

lemma execute_pointerSize:
  "execute s as = Some s' \<Longrightarrow>
   (\<forall>address cb answer. PointerSizeAnswer address cb answer \<notin> set as) \<Longrightarrow>
   pointerSize s' = pointerSize s"
proof (induction as arbitrary: s)
  case Nil
  then show ?case by simp
next
  case (Cons a as)
  then have ex: "execute (perform s a) as = Some s'" by (simp split: if_splits)
  have a: "a \<noteq> PointerSizeAnswer address cb answer" for address cb answer
    using Cons.prems(2) by auto
  have "\<forall>address cb answer. PointerSizeAnswer address cb answer \<notin> set as"
    using Cons.prems(2) by auto
  from Cons.IH [OF ex this] show ?case by (simp add: perform_pointerSize [OF a])
qed

text \<open>
  Claim C7: the handler of an execution-state change empties the cache and leaves the pointer
  size alone. After it no page has an entry, so the next admission of any page, whatever was
  cached for it before, makes a new entry whose memory is empty and sends a new page fetch;
  nothing is delivered from the old bytes. A pointer size that was known stays known, and a
  pointer read after the change goes on with it without asking the debugger again. No run of
  reads, page answers and changes of execution state alters the pointer size: only an answer
  to a pointer-size query writes it.
\<close>

theorem invalidation_keeps_pointer_size:
  "pointerSize (clearCache s) = pointerSize s
   \<and> cache (clearCache s) page = None
   \<and> entries (clearCache s) = entries s
   \<and> loadPage (clearCache s) page (Some v) c =
       (True,
        s\<lparr>entries := entries s @ [newEntry\<lparr>hits := 1, inflight := True, callbacks := [(v, c)]\<rparr>],
          cache := (\<lambda>p. None)(page \<mapsto> length (entries s)),
          trace := trace s @ [ReadArrayRequest page RETRIEVAL_SIZE True False
                     (PAGE_SIZE div RETRIEVAL_SIZE) (PageFetched (length (entries s)))]\<rparr>)
   \<and> (pointerSize s = Some n \<longrightarrow>
        readPointer (clearCache s) address cb = readNumber (clearCache s) address n True False cb)
   \<and> (\<forall>as s'. execute s as = Some s'
          \<and> (\<forall>a cb' answer. PointerSizeAnswer a cb' answer \<notin> set as)
        \<longrightarrow> pointerSize s' = pointerSize s)"
proof -
  have "cache (clearCache s) page = None" by (simp add: clearCache_def)
  from loadPage_fresh [OF this, of v c] show ?thesis
    using execute_pointerSize by (simp add: clearCache_def readPointer_def) blast
qed


theorem invalidation_keeps_pointer_size_witness:
  "pointerSize (initialState\<lparr>pointerSize := Some 4\<rparr>) = Some 4
   \<and> readPointer (clearCache (initialState\<lparr>pointerSize := Some 4\<rparr>)) 4096 0
       = readNumber (clearCache (initialState\<lparr>pointerSize := Some 4\<rparr>)) 4096 4 True False 0"
  using invalidation_keeps_pointer_size [of "initialState\<lparr>pointerSize := Some 4\<rparr>" 0 Uint32Array
      "ReadNumberCallback 0 4 0" 4 4096 0]
  by simp

section \<open>Declined pages\<close>

lemma memoryCallback_PageLoaded:
  "memoryCallback s (v, PageLoaded r i) m =
     pageLoaded s r i (case m of FailedResult e \<Rightarrow> ErrorView e | ArrayBuffer buf \<Rightarrow> TypedArray v buf)"
  by (cases m) simp_all

lemma requestOne_step:
  fixes s :: state and r i :: nat and viewer :: "viewer option" and page :: int
  assumes r: "r < length (arrayReads s)"
    and n: "int (Suc n) \<le> remainingViews (arrayReads s ! r)"
    and d: "\<not> areAllPagesEligible (arrayReads s ! r) \<Longrightarrow>
            int (Suc n) < remainingViews (arrayReads s ! r)"
  defines "s' \<equiv> requestOne s r viewer i page"
  shows "areAllPagesEligible (arrayReads s' ! r) =
           (areAllPagesEligible (arrayReads s ! r) \<and> fst (loadPage s page viewer (PageLoaded r i)))"
    and "int n \<le> remainingViews (arrayReads s' ! r)"
    and "\<not> areAllPagesEligible (arrayReads s' ! r) \<Longrightarrow> int n < remainingViews (arrayReads s' ! r)"
    and "(\<exists>evs. trace s' = trace s @ evs \<and> list_all isFetchRequest evs)
         \<or> (n = 0 \<and> areAllPagesEligible (arrayReads s' ! r))"
proof -
  show "areAllPagesEligible (arrayReads s' ! r) =
           (areAllPagesEligible (arrayReads s ! r) \<and> fst (loadPage s page viewer (PageLoaded r i)))"
    using r unfolding s'_def
    by (cases viewer)
       (auto simp: requestOne_def loadPage_Some admitEntry_def memoryCallback_PageLoaded pageLoaded_def Let_def
          split: option.splits pageMemory.splits)
  show "int n \<le> remainingViews (arrayReads s' ! r)"
    using r n unfolding s'_def
    by (cases viewer)
       (auto simp: requestOne_def loadPage_Some admitEntry_def memoryCallback_PageLoaded pageLoaded_def Let_def
          split: option.splits pageMemory.splits)
  show "int n < remainingViews (arrayReads s' ! r)" if "\<not> areAllPagesEligible (arrayReads s' ! r)"
    using r n d that unfolding s'_def
    by (cases viewer)
       (auto simp: requestOne_def loadPage_Some admitEntry_def memoryCallback_PageLoaded pageLoaded_def Let_def
          split: option.splits pageMemory.splits if_splits)
  show "(\<exists>evs. trace s' = trace s @ evs \<and> list_all isFetchRequest evs)
         \<or> (n = 0 \<and> areAllPagesEligible (arrayReads s' ! r))"
    using r n unfolding s'_def
    by (cases viewer)
       (auto simp: requestOne_def loadPage_Some admitEntry_def memoryCallback_PageLoaded pageLoaded_def Let_def
          split: option.splits pageMemory.splits if_splits)
qed


lemma requestEach_declined:
  fixes s :: state and r i :: nat and viewer :: "viewer option"
  assumes "r < length (arrayReads s)"
    and "int (length pages) \<le> remainingViews (arrayReads s ! r)"
    and "\<not> areAllPagesEligible (arrayReads s ! r) \<Longrightarrow>
         int (length pages) < remainingViews (arrayReads s ! r)"
  shows "areAllPagesEligible (arrayReads (requestEach s r viewer i pages) ! r) =
           (areAllPagesEligible (arrayReads s ! r) \<and> False \<notin> set (admissions s r viewer i pages))
    \<and> (\<not> areAllPagesEligible (arrayReads (requestEach s r viewer i pages) ! r) \<longrightarrow>
         (\<exists>evs. trace (requestEach s r viewer i pages) = trace s @ evs
                \<and> list_all isFetchRequest evs))"
  using assms
proof (induction pages arbitrary: s i)
  case Nil
  then show ?case by simp
next
  case (Cons page pages)
  let ?s1 = "requestOne s r viewer i page"
  have n: "int (Suc (length pages)) \<le> remainingViews (arrayReads s ! r)"
    using Cons.prems(2) by simp
  have d: "\<not> areAllPagesEligible (arrayReads s ! r) \<Longrightarrow>
      int (Suc (length pages)) < remainingViews (arrayReads s ! r)"
    using Cons.prems(3) by simp
  note st = requestOne_step [OF Cons.prems(1) n d, of viewer i page]
  have r1: "r < length (arrayReads ?s1)" using Cons.prems(1) by simp
  note ih = Cons.IH [OF r1 st(2) st(3), of "Suc i"]
  have flag: "areAllPagesEligible (arrayReads (requestEach s r viewer i (page # pages)) ! r) =
      (areAllPagesEligible (arrayReads s ! r)
       \<and> False \<notin> set (admissions s r viewer i (page # pages)))"
    unfolding requestEach_Cons admissions_Cons using ih st(1) by auto
  have tr: "\<exists>evs. trace (requestEach s r viewer i (page # pages)) = trace s @ evs
        \<and> list_all isFetchRequest evs"
    if no: "\<not> areAllPagesEligible (arrayReads (requestEach s r viewer i (page # pages)) ! r)"
  proof -
    have no1: "\<not> areAllPagesEligible (arrayReads (requestEach ?s1 r viewer (Suc i) pages) ! r)"
      using no unfolding requestEach_Cons .
    with ih obtain evs2 where e2: "trace (requestEach ?s1 r viewer (Suc i) pages) = trace ?s1 @ evs2"
      "list_all isFetchRequest evs2" by blast
    from st(4) show ?thesis
    proof
      assume "\<exists>evs. trace ?s1 = trace s @ evs \<and> list_all isFetchRequest evs"
      then obtain evs1 where "trace ?s1 = trace s @ evs1" "list_all isFetchRequest evs1" by blast
      then show ?thesis using e2 by (simp add: requestEach_Cons)
    next
      assume a: "length pages = 0 \<and> areAllPagesEligible (arrayReads ?s1 ! r)"
      then have "requestEach ?s1 r viewer (Suc i) pages = ?s1" by simp
      with a no1 show ?thesis by simp
    qed
  qed
  show ?case using flag tr by blast
qed

lemma pageLoaded_ineligible_silent:
  "ineligible r s \<Longrightarrow> trace (pageLoaded s r i v) = trace s"
  by (simp add: ineligible_def pageLoaded_def Let_def)

text \<open>
  Claim C3: when at least one of the pages spanned by an array read is declined, the read
  sends exactly one uncached request, for the start address, element kind and count it was
  called with; apart from it the call sends nothing but page fetches for the cache, and it
  delivers nothing. The read stays marked as ineligible in every later state, and in such a
  state a page that comes in for it delivers nothing: the continuation that assembles the
  array from the cached pages is never called, so no result mixes the two paths.
\<close>

theorem declined_page_means_one_uncached_read:
  assumes "False \<in> set (readArrayAdmissions s address itemSize isUnsigned isFloat count cb)"
  shows "(\<exists>fetches.
            trace (readArray s address itemSize isUnsigned isFloat count cb) =
              trace s @ fetches
                @ [ReadArrayRequest address itemSize isUnsigned isFloat count (UserCallback cb)]
            \<and> list_all isFetchRequest fetches)
    \<and> (\<forall>as s'. execute (readArray s address itemSize isUnsigned isFloat count cb) as = Some s'
          \<longrightarrow> ineligible (length (arrayReads s)) s'
              \<and> (\<forall>i v. trace (pageLoaded s' (length (arrayReads s)) i v) = trace s'))"
proof -
  let ?pages = "calculatePagesForArray address itemSize count"
  let ?r = "length (arrayReads s)"
  let ?s0 = "allocated s (newArrayRead address itemSize count cb (length ?pages))"
  let ?viewer = "getArrayViewer itemSize isUnsigned isFloat"
  let ?s1 = "requestEach ?s0 ?r ?viewer 0 ?pages"
  have r: "?r < length (arrayReads ?s0)" by simp
  have a0: "arrayReads ?s0 ! ?r = newArrayRead address itemSize count cb (length ?pages)"
    by simp
  have n: "int (length ?pages) \<le> remainingViews (arrayReads ?s0 ! ?r)"
    unfolding a0 by (simp add: newArrayRead_def)
  have d: "\<not> areAllPagesEligible (arrayReads ?s0 ! ?r) \<Longrightarrow>
      int (length ?pages) < remainingViews (arrayReads ?s0 ! ?r)"
    unfolding a0 by (simp add: newArrayRead_def)
  note lp = requestEach_declined [OF r n d, of ?viewer 0]
  have "False \<in> set (admissions ?s0 ?r ?viewer 0 ?pages)"
    using assms by (simp add: readArrayAdmissions_def Let_def)
  with lp have no: "\<not> areAllPagesEligible (arrayReads ?s1 ! ?r)" by simp
  with lp obtain evs where evs: "trace ?s1 = trace ?s0 @ evs" "list_all isFetchRequest evs"
    by blast
  have ra: "readArray s address itemSize isUnsigned isFloat count cb =
      emit (ReadArrayRequest address itemSize isUnsigned isFloat count (UserCallback cb)) ?s1"
    using no by (simp add: readArray_alt Let_def)
  have first: "\<exists>fetches.
      trace (readArray s address itemSize isUnsigned isFloat count cb) =
        trace s @ fetches
          @ [ReadArrayRequest address itemSize isUnsigned isFloat count (UserCallback cb)]
      \<and> list_all isFetchRequest fetches"
    using evs by (simp add: ra)
  have inel: "ineligible ?r (readArray s address itemSize isUnsigned isFloat count cb)"
    using no by (simp add: ra ineligible_def)
  have later: "ineligible ?r s' \<and> (\<forall>i v. trace (pageLoaded s' ?r i v) = trace s')"
    if "execute (readArray s address itemSize isUnsigned isFloat count cb) as = Some s'" for as s'
    using execute_ineligible [OF that inel] by (simp add: pageLoaded_ineligible_silent)
  show ?thesis
    using first later by (intro conjI allI impI) blast+
qed

theorem declined_page_means_one_uncached_read_witness:
  "False \<in> set (readArrayAdmissions initialState 4000 3 True False 100 7)
   \<and> (\<exists>fetches.
        trace (readArray initialState 4000 3 True False 100 7) =
          trace initialState @ fetches @ [ReadArrayRequest 4000 3 True False 100 (UserCallback 7)]
        \<and> list_all isFetchRequest fetches)"
proof -
  have p: "calculatePagesForArray 4000 3 100 = [0, 4096]"
    by (simp add: calculatePagesForArray_def getPage_def big_mod_def PAGE_SIZE_def
        pagesBelow.simps [of 0 4300] pagesBelow.simps [of 4096 4300] pagesBelow.simps [of 8192 4300])
  have v: "getArrayViewer 3 True False = None"
    by (simp add: getArrayViewer_cases)
  have a: "False \<in> set (readArrayAdmissions initialState 4000 3 True False 100 7)"
    by (simp add: readArrayAdmissions_def p v admissions_Cons)
  from declined_page_means_one_uncached_read [OF a] show ?thesis
    using a by blast
qed

section \<open>Reads of nothing, and failures\<close>

lemma not_awaited_initially: "\<not> awaited r initialState"
  by (simp add: awaited_def allWaiters_def initialState_def)

text \<open>
  Claim C10: an array read of no elements at a page-aligned address spans no page. In any
  state the module can reach, the call sends no request and delivers nothing: it leaves the
  trace, the cache and the entries as they were and only sets up its own variables. No
  continuation of the call is queued anywhere, then or in any later state, so nothing can ever
  call its continuation.
\<close>

theorem empty_aligned_read_delivers_nothing:
  assumes "execute initialState as = Some s"
    and "big_mod address PAGE_SIZE = 0"
  shows "calculatePagesForArray address itemSize 0 = []
    \<and> readArray s address itemSize isUnsigned isFloat 0 cb =
        allocated s (newArrayRead address itemSize 0 cb 0)
    \<and> trace (readArray s address itemSize isUnsigned isFloat 0 cb) = trace s
    \<and> (\<forall>bs s'. execute (readArray s address itemSize isUnsigned isFloat 0 cb) bs = Some s'
          \<longrightarrow> \<not> awaited (length (arrayReads s)) s')"
proof -
  let ?r = "length (arrayReads s)"
  let ?s1 = "allocated s (newArrayRead address itemSize 0 cb 0)"
  have pages: "calculatePagesForArray address itemSize 0 = []"
    using assms(2) by (simp add: calculatePagesForArray_def getPage_def pagesBelow_empty)
  have ra: "readArray s address itemSize isUnsigned isFloat 0 cb = ?s1"
    using readArray_nothing [OF assms(2)] by (simp add: allocated_def)
  have "\<not> awaited ?r s"
    using execute_waiters_known [OF assms(1), of ?r] not_awaited_initially by auto
  then have na: "\<not> awaited ?r ?s1" by simp
  have r: "?r < length (arrayReads ?s1)" by simp
  have "\<not> awaited ?r s'" if "execute ?s1 bs = Some s'" for bs s'
    using execute_not_awaited [OF that r na] by simp
  then show ?thesis using pages ra by simp
qed

theorem empty_aligned_read_delivers_nothing_witness:
  "trace (readArray initialState 8192 4 True False 0 9) = []
   \<and> calculatePagesForArray 8192 4 0 = []"
proof -
  have a: "execute initialState [] = Some initialState" by simp
  have b: "big_mod 8192 PAGE_SIZE = 0" by (simp add: big_mod_def PAGE_SIZE_def)
  from empty_aligned_read_delivers_nothing [OF a b, of 4 True False 9]
  show ?thesis by (simp add: initialState_def)
qed




lemma loadPage_cached:
  assumes "cache s page = Some entry" "entry < length (entries s)"
    and "memory (entries s ! entry) = Some m"
  shows "loadPage s page (Some v) c =
     (True, memoryCallback (updateEntry entry (\<lambda>c. c\<lparr>hits := hits c + 1\<rparr>) s) (v, c) m)"
  using assms by (simp add: loadPage_Some touchEntry_known admitEntry_def)

section \<open>The page buffer\<close>

text \<open>Little-endian bytes of a 32-bit word, and back.\<close>

lemma uint_byte_of_word:
  "uint (ucast (drop_bit k (w::'a::len word)) :: byte) = (uint w div 2 ^ k) mod 256"
proof -
  have "take_bit LENGTH('a) (uint w) = uint w"
    by (simp add: take_bit_int_eq_self_iff uint_bounded)
  then have "uint (ucast (drop_bit k w) :: byte) = take_bit 8 (drop_bit k (uint w))"
    by (simp add: unsigned_ucast_eq unsigned_drop_bit_eq)
  also have "\<dots> = (uint w div 2 ^ k) mod 256"
    by (simp add: take_bit_eq_mod drop_bit_eq_div)
  finally show ?thesis .
qed

lemma low_byte_split: "(x::int) mod 256 + 256 * (x div 256) = x"
  by simp

lemma join_four:
  "x = a + 256 * q1 \<Longrightarrow> q1 = b + 256 * q2 \<Longrightarrow> q2 = c + 256 * d \<Longrightarrow>
   a + (256 * b + (65536 * c + 16777216 * d)) = (x::int)"
  by simp

lemma four_bytes_of_int:
  assumes "0 \<le> (x::int)" "x < 2 ^ 32"
  shows "x mod 256 + (256 * (x div 256 mod 256) + (65536 * (x div 65536 mod 256)
           + 16777216 * (x div 16777216 mod 256))) = x"
proof -
  have "x div 16777216 < 256" using assms by simp
  moreover have "0 \<le> x div 16777216" using assms by (simp add: pos_imp_zdiv_nonneg_iff)
  ultimately have top: "x div 16777216 mod 256 = x div 16777216"
    by (rule mod_pos_pos_trivial [rotated])
  have q: "x div 65536 div 256 = x div 16777216" "x div 256 div 256 = x div 65536"
    using zdiv_zmult2_eq [of 256 x 65536] zdiv_zmult2_eq [of 256 x 256] by simp_all
  have e2: "x div 65536 = x div 65536 mod 256 + 256 * (x div 16777216)"
    using low_byte_split [of "x div 65536"] unfolding q by (rule sym)
  have e1: "x div 256 = x div 256 mod 256 + 256 * (x div 65536)"
    using low_byte_split [of "x div 256"] unfolding q by (rule sym)
  show ?thesis
    unfolding top by (rule join_four [OF low_byte_split [symmetric] e1 e2])
qed

lemma le_bytes_four:
  "le_bytes 4 w = [ucast w, ucast (drop_bit 8 w), ucast (drop_bit 16 w), ucast (drop_bit 24 w)]"
  by (simp add: le_bytes_def upt_rec)

lemma le_word_le_bytes: "le_word (le_bytes 4 (w :: 32 word)) = w"
proof -
  have b: "0 \<le> uint w" "uint w < 2 ^ 32" using uint_bounded [of w] by simp_all
  have u0: "uint (ucast w :: byte) = uint w mod 256" using uint_byte_of_word [of 0 w] by simp
  have "horner_sum uint 256 (le_bytes 4 w) =
      uint w mod 256 + (256 * (uint w div 256 mod 256) + (65536 * (uint w div 65536 mod 256)
        + 16777216 * (uint w div 16777216 mod 256)))"
    unfolding le_bytes_four by (simp add: uint_byte_of_word u0)
  also have "\<dots> = uint w" by (rule four_bytes_of_int [OF b])
  finally show ?thesis by (simp add: le_word_def)
qed

lemma length_le_bytes [simp]: "length (le_bytes n w) = n"
  by (simp add: le_bytes_def)

text \<open>The page buffer after the copy loop.\<close>

lemma copy_loop:
  assumes "4 * n \<le> length buf"
  shows "foldl (\<lambda>buf i. setUint32 buf i (g i)) buf [0..<n]
     = concat (map (\<lambda>i. le_bytes 4 (g i)) [0..<n]) @ drop (4 * n) buf"
  using assms
proof (induction n)
  case 0
  then show ?case by simp
next
  case (Suc n)
  let ?done = "concat (map (\<lambda>i. le_bytes 4 (g i)) [0..<n])"
  have l: "length ?done = 4 * n"
    by (induction n) simp_all
  have ih: "foldl (\<lambda>buf i. setUint32 buf i (g i)) buf [0..<n] = ?done @ drop (4 * n) buf"
    using Suc by simp
  have fits: "4 * n + 4 \<le> length (?done @ drop (4 * n) buf)"
    using Suc.prems l by simp
  have "foldl (\<lambda>buf i. setUint32 buf i (g i)) buf [0..<Suc n]
      = setUint32 (foldl (\<lambda>buf i. setUint32 buf i (g i)) buf [0..<n]) n (g n)"
    by simp
  also have "\<dots> = setUint32 (?done @ drop (4 * n) buf) n (g n)"
    by (simp only: ih)
  also have "\<dots> = ?done @ le_bytes 4 (g n) @ drop (4 * n + 4) buf"
    using Suc.prems l by (simp add: setUint32_def add.commute)
  finally show ?case by (simp add: add.commute)
qed

lemma fillPage_blocks:
  "fillPage array = concat (map (\<lambda>i. le_bytes 4 (fetchedAt array i)) [0..<1024])"
proof -
  have n: "viewLength Uint32Array (replicate (nat PAGE_SIZE) 0) = 1024"
    by (simp add: viewLength_def PAGE_SIZE_def)
  have "4 * 1024 \<le> length (replicate (nat PAGE_SIZE) (0::byte))"
    by (simp add: PAGE_SIZE_def)
  from copy_loop [OF this, of "fetchedAt array"] show ?thesis
    unfolding fillPage_def n by (simp add: PAGE_SIZE_def)
qed

lemma block_of_concat:
  "\<forall>x \<in> set xs. length x = k \<Longrightarrow> j < length xs \<Longrightarrow>
   take k (drop (j * k) (concat xs)) = xs ! j"
proof (induction xs arbitrary: j)
  case Nil
  then show ?case by simp
next
  case (Cons x xs)
  show ?case
  proof (cases j)
    case 0
    then show ?thesis using Cons.prems by simp
  next
    case (Suc j')
    then have "take k (drop (j' * k) (concat xs)) = xs ! j'"
      using Cons by simp
    then show ?thesis using Cons.prems by (simp add: Suc add.commute)
  qed
qed

lemma length_fillPage [simp]: "length (fillPage array) = nat PAGE_SIZE"
proof -
  have "length (concat (map (\<lambda>i. le_bytes 4 (fetchedAt array i)) [0..<n])) = 4 * n" for n
    by (induction n) simp_all
  then show ?thesis by (simp add: fillPage_blocks PAGE_SIZE_def)
qed

lemma viewIndex_fillPage:
  assumes "j < 1024"
  shows "viewIndex Uint32Array (fillPage array) (int j) = Number (uint (fetchedAt array j))"
proof -
  let ?blocks = "map (\<lambda>i. le_bytes 4 (fetchedAt array i)) [0..<1024]"
  have "take 4 (drop (j * 4) (concat ?blocks)) = ?blocks ! j"
    by (rule block_of_concat) (use assms in simp_all)
  then have "take 4 (drop (j * 4) (fillPage array)) = le_bytes 4 (fetchedAt array j)"
    using assms by (simp add: fillPage_blocks)
  then show ?thesis
    using assms by (simp add: viewIndex_def viewLength_def PAGE_SIZE_def le_word_le_bytes)
qed

lemma viewElements_fillPage:
  "viewElements Uint32Array (fillPage array) = map (\<lambda>i. Number (uint (fetchedAt array i))) [0..<1024]"
  by (rule nth_equalityI)
     (simp_all add: viewElements_def viewLength_def PAGE_SIZE_def viewIndex_fillPage)

section \<open>One fetch for each entry\<close>

lemma pageFetches_append [simp]:
  "pageFetches entry (xs @ ys) = pageFetches entry xs + pageFetches entry ys"
  by (simp add: pageFetches_def)

lemma pageFetches_simps [simp]:
  "pageFetches entry [] = 0"
  "pageFetches entry [Delivered cb r] = 0"
  "pageFetches entry [ReadNumberRequest a z u f cb] = 0"
  "pageFetches entry [GetPointerSizeRequest a cb] = 0"
  "pageFetches entry [ReadArrayRequest a z u f n (UserCallback cb)] = 0"
  "pageFetches entry [ReadArrayRequest a z u f n (PageFetched e)] = (if e = entry then 1 else 0)"
  by (simp_all add: pageFetches_def)

lemma pageFetches_pageLoaded [simp]:
  "pageFetches entry (trace (pageLoaded s r i v)) = pageFetches entry (trace s)"
  by (simp add: pageLoaded_def Let_def)

lemma pageFetches_invokeCallback [simp]:
  "pageFetches entry (trace (invokeCallback s c v)) = pageFetches entry (trace s)"
  by (cases "(s, c, v)" rule: invokeCallback.cases) simp_all

lemma pageFetches_memoryCallback [simp]:
  "pageFetches entry (trace (memoryCallback s w m)) = pageFetches entry (trace s)"
  by (cases "(s, w, m)" rule: memoryCallback.cases) simp_all

lemma pageFetches_notifyWaiters [simp]:
  "pageFetches entry (trace (notifyWaiters s ws m)) = pageFetches entry (trace s)"
  by (induction ws arbitrary: s) simp_all

lemma cacheInvariant_cong:
  "entries s' = entries s \<Longrightarrow> cache s' = cache s \<Longrightarrow>
   (\<And>entry. pageFetches entry (trace s') = pageFetches entry (trace s)) \<Longrightarrow>
   cacheInvariant s' = cacheInvariant s"
  by (simp add: cacheInvariant_def)

lemma cacheInvariant_frame [simp]:
  "cacheInvariant (updateRead n g s) = cacheInvariant s"
  "cacheInvariant (allocated s ar) = cacheInvariant s"
  "cacheInvariant (s\<lparr>pointerSize := x\<rparr>) = cacheInvariant s"
  "cacheInvariant (pageLoaded s r i v) = cacheInvariant s"
  "cacheInvariant (invokeCallback s c v) = cacheInvariant s"
  "cacheInvariant (memoryCallback s w m) = cacheInvariant s"
  "cacheInvariant (notifyWaiters s ws m) = cacheInvariant s"
  "cacheInvariant (emit (Delivered cb res) s) = cacheInvariant s"
  "cacheInvariant (emit (ReadNumberRequest a z u f cb) s) = cacheInvariant s"
  "cacheInvariant (emit (GetPointerSizeRequest a cb) s) = cacheInvariant s"
  "cacheInvariant (emit (ReadArrayRequest a z u f k (UserCallback cb)) s) = cacheInvariant s"
  by (rule cacheInvariant_cong; simp)+

lemma cacheInvariant_initially: "cacheInvariant initialState"
  by (simp add: cacheInvariant_def initialState_def)

lemma cacheInvariant_clearCache: "cacheInvariant s \<Longrightarrow> cacheInvariant (clearCache s)"
  by (simp add: cacheInvariant_def clearCache_def)

lemma loadPage_pending:
  assumes "cacheInvariant s" "cache s page = Some entry" "memory (entries s ! entry) = None"
  shows "loadPage s page (Some v) c =
     (True, updateEntry entry (\<lambda>e. e\<lparr>callbacks := callbacks e @ [(v, c)]\<rparr>)
              (updateEntry entry (\<lambda>e. e\<lparr>hits := hits e + 1\<rparr>) s))"
proof -
  have e: "entry < length (entries s)" using assms(1,2) by (simp add: cacheInvariant_def)
  then have "1 \<le> hits (entries s ! entry)" "inflight (entries s ! entry)"
    using assms(1,3) by (simp_all add: cacheInvariant_def)
  then show ?thesis
    using e assms(3)
    by (simp add: loadPage_Some touchEntry_known assms(2) admitEntry_def CACHE_TRIGGER_def)
qed

lemma cacheInvariant_loadPage:
  assumes "cacheInvariant s"
  shows "cacheInvariant (snd (loadPage s page viewer c))"
proof (cases viewer)
  case None
  then show ?thesis using assms by simp
next
  case (Some v)
  show ?thesis
  proof (cases "cache s page")
    case None
    show ?thesis
      using assms
      by (auto simp: Some loadPage_fresh [OF None] cacheInvariant_def nth_append newEntry_def
          intro: less_SucI)
  next
    case (Some entry)
    note known = this
    have e: "entry < length (entries s)" using assms known by (simp add: cacheInvariant_def)
    show ?thesis
    proof (cases "memory (entries s ! entry)")
      case None
      show ?thesis
        using assms e
        by (auto simp: \<open>viewer = Some v\<close> loadPage_pending [OF assms known None]
            cacheInvariant_def nth_list_update)
    next
      case (Some m)
      have "cacheInvariant (updateEntry entry (\<lambda>c. c\<lparr>hits := hits c + 1\<rparr>) s)"
        using assms e by (auto simp: cacheInvariant_def nth_list_update)
      then show ?thesis
        by (simp add: \<open>viewer = Some v\<close> loadPage_cached [OF known e Some])
    qed
  qed
qed


lemma cacheInvariant_readNumber:
  "cacheInvariant s \<Longrightarrow> cacheInvariant (readNumber s address sz u f cb)"
  by (simp add: readNumber_def Let_def case_prod_beta cacheInvariant_loadPage)

lemma cacheInvariant_readPointer:
  "cacheInvariant s \<Longrightarrow> cacheInvariant (readPointer s address cb)"
  by (simp add: readPointer_def cacheInvariant_readNumber split: option.splits)

lemma cacheInvariant_requestOne:
  "cacheInvariant s \<Longrightarrow> cacheInvariant (requestOne s r viewer i page)"
  by (simp add: requestOne_def case_prod_beta cacheInvariant_loadPage)

lemma cacheInvariant_requestEach:
  "cacheInvariant s \<Longrightarrow> cacheInvariant (requestEach s r viewer i pages)"
  by (induction pages arbitrary: s i)
     (simp, simp only: requestEach_Cons cacheInvariant_requestOne)

lemma cacheInvariant_readArray:
  "cacheInvariant s \<Longrightarrow> cacheInvariant (readArray s address itemSize u f count cb)"
  by (simp add: readArray_alt Let_def cacheInvariant_requestEach)

lemma nth_update_any: "xs[i := x] ! j = (if i = j \<and> i < length xs then x else xs ! j)"
  by (cases "i < length xs") (auto simp: nth_list_update list_update_beyond)

lemma fetchedMemory_full:
  "fetchedMemory r = ArrayBuffer buf \<Longrightarrow> length buf = nat PAGE_SIZE"
  by (cases r) auto

lemma cacheInvariant_pageFetched:
  assumes "cacheInvariant s"
  shows "cacheInvariant (pageFetched s entry r)"
proof -
  have "cacheInvariant (updateEntry entry (storeFetched r) s)"
    using assms by (auto simp: cacheInvariant_def nth_update_any dest: fetchedMemory_full)
  then have "cacheInvariant (notifyWaiters (updateEntry entry (storeFetched r) s) ws
      (fetchedMemory r))" for ws
    by simp
  then show ?thesis
    unfolding pageFetched_def Let_def
    by (auto simp: cacheInvariant_def nth_update_any dest: fetchedMemory_full)
qed

lemma cacheInvariant_perform: "cacheInvariant s \<Longrightarrow> cacheInvariant (perform s a)"
  by (cases a)
     (simp_all add: cacheInvariant_readPointer cacheInvariant_readNumber cacheInvariant_readArray
        cacheInvariant_clearCache cacheInvariant_pageFetched pointerSizeReceived_def)

lemma cacheInvariant_execute:
  "execute s as = Some s' \<Longrightarrow> cacheInvariant s \<Longrightarrow> cacheInvariant s'"
  by (induction as arbitrary: s) (auto simp: cacheInvariant_perform split: if_splits)

text \<open>
  Claim C2: in every state the module reaches from its start, by any reads, answers and
  changes of execution state, the page fetch of a cache entry has been sent at most once.
  The first admission of a page without an entry creates the entry and sends the one fetch of
  the full page; while that entry has no memory yet, every further admission of the page (by
  a request with a viewer, which is what reaches the entry) is queued behind the others and
  sends nothing.
\<close>

theorem one_fetch_per_entry:
  assumes "execute initialState as = Some s"
  shows "(\<forall>entry. pageFetches entry (trace s) \<le> 1)
    \<and> (cache s page = None \<longrightarrow>
        loadPage s page (Some v) c =
          (True,
           s\<lparr>entries := entries s @ [newEntry\<lparr>hits := 1, inflight := True, callbacks := [(v, c)]\<rparr>],
             cache := (cache s)(page \<mapsto> length (entries s)),
             trace := trace s @ [ReadArrayRequest page RETRIEVAL_SIZE True False
                        (PAGE_SIZE div RETRIEVAL_SIZE) (PageFetched (length (entries s)))]\<rparr>))
    \<and> (cache s page = Some entry \<and> memory (entries s ! entry) = None \<longrightarrow>
        pageFetches entry (trace s) = 1
        \<and> loadPage s page (Some v) c =
          (True, updateEntry entry (\<lambda>e. e\<lparr>callbacks := callbacks e @ [(v, c)]\<rparr>)
                   (updateEntry entry (\<lambda>e. e\<lparr>hits := hits e + 1\<rparr>) s))
        \<and> trace (snd (loadPage s page (Some v) c)) = trace s)"
proof -
  have inv: "cacheInvariant s"
    by (rule cacheInvariant_execute [OF assms cacheInvariant_initially])
  have one: "\<forall>entry. pageFetches entry (trace s) \<le> 1"
    using inv by (simp add: cacheInvariant_def)
  have pending: "pageFetches entry (trace s) = 1
      \<and> loadPage s page (Some v) c =
          (True, updateEntry entry (\<lambda>e. e\<lparr>callbacks := callbacks e @ [(v, c)]\<rparr>)
                   (updateEntry entry (\<lambda>e. e\<lparr>hits := hits e + 1\<rparr>) s))
      \<and> trace (snd (loadPage s page (Some v) c)) = trace s"
    if "cache s page = Some entry" "memory (entries s ! entry) = None"
    using loadPage_pending [OF inv that] inv that(1) by (simp add: cacheInvariant_def)
  show ?thesis
    using one pending loadPage_fresh by blast
qed

theorem one_fetch_per_entry_witness:
  "pageFetches 0 (trace (readNumber (readNumber initialState 8 4 True False 5) 12 2 False False 6)) = 1
   \<and> trace (readNumber (readNumber initialState 8 4 True False 5) 12 2 False False 6)
      = trace (readNumber initialState 8 4 True False 5)"
proof -
  let ?s1 = "readNumber initialState 8 4 True False 5"
  have p: "getPage 8 = 0" "getPage 12 = 0"
    by (simp_all add: getPage_def big_mod_def PAGE_SIZE_def)
  have s1: "?s1 = \<lparr>pointerSize = None, cache = (\<lambda>p. None)(0 \<mapsto> 0),
      entries = [\<lparr>hits = 1, memory = None, error = None, inflight = True,
                  callbacks = [(Uint32Array, ReadNumberCallback 8 4 5)]\<rparr>],
      arrayReads = [], trace = [ReadArrayRequest 0 4 True False 1024 (PageFetched 0)]\<rparr>"
    by (simp add: readNumber_def getArrayViewer_cases p loadPage_fresh initialState_def
        newEntry_def PAGE_SIZE_def RETRIEVAL_SIZE_def)
  have ex: "execute initialState [ReadNumber 8 4 True False 5] = Some ?s1" by simp
  have c: "cache ?s1 0 = Some 0" "memory (entries ?s1 ! 0) = None" unfolding s1 by simp_all
  from one_fetch_per_entry [OF ex, of 0 Int16Array "ReadNumberCallback 12 2 6" 0] c
  have "pageFetches 0 (trace ?s1) = 1"
    and "trace (snd (loadPage ?s1 0 (Some Int16Array) (ReadNumberCallback 12 2 6))) = trace ?s1"
    and "fst (loadPage ?s1 0 (Some Int16Array) (ReadNumberCallback 12 2 6))"
    by simp_all
  then show ?thesis
    by (simp add: readNumber_def [of ?s1] getArrayViewer_cases p case_prod_beta)
qed

section \<open>One array read through a run\<close>






text \<open>Steps that are none of the read's business.\<close>

lemma readQueue_simps [simp]:
  "readQueue r (c\<lparr>hits := h\<rparr>) = readQueue r c"
  "readQueue r (c\<lparr>inflight := b\<rparr>) = readQueue r c"
  "readQueue r (c\<lparr>memory := m\<rparr>) = readQueue r c"
  "readQueue r (c\<lparr>callbacks := ws\<rparr>) = filter (waitsFor r) ws"
  "readQueue r newEntry = []"
  "readQueue r (storeFetched res c) = readQueue r c"
  by (simp_all add: readQueue_def newEntry_def)















































section \<open>The cached path against the uncached path\<close>

lemma uint_fetched_remote:
  "i < n \<Longrightarrow> uint (fetchedAt (remoteReadUint32 mem p n) i) = remoteUint32 mem (p + 4 * int i)"
  by (simp add: fetchedAt_def remoteReadUint32_def remoteUint32_def)

lemma viewElements_remote_page:
  "viewElements Uint32Array (fillPage (remoteReadUint32 mem p 1024)) =
     map (\<lambda>i. Number (remoteUint32 mem (p + 4 * int i))) [0..<1024]"
  by (simp add: viewElements_fillPage uint_fetched_remote)

lemma newArrayRead_fields [simp]:
  "areAllPagesEligible (newArrayRead address itemSize count cb n)"
  "remainingViews (newArrayRead address itemSize count cb n) = int n"
  "loadedViews (newArrayRead address itemSize count cb n) = replicate n None"
  "readAddress (newArrayRead address itemSize count cb n) = address"
  "readItemSize (newArrayRead address itemSize count cb n) = itemSize"
  "readCount (newArrayRead address itemSize count cb n) = count"
  "readCallback (newArrayRead address itemSize count cb n) = cb"
  by (simp_all add: newArrayRead_def)

text \<open>An array read over two pages that have no entry yet, and the two answers.\<close>

lemma readArray_two_fresh_pages:
  assumes "calculatePagesForArray address itemSize count = [p0, p1]" "p0 \<noteq> p1"
    and "cache s p0 = None" "cache s p1 = None"
    and "getArrayViewer itemSize u f = Some v"
  shows "readArray s address itemSize u f count cb =
    s\<lparr>entries := entries s @
         [newEntry\<lparr>hits := 1, inflight := True,
                    callbacks := [(v, PageLoaded (length (arrayReads s)) 0)]\<rparr>,
          newEntry\<lparr>hits := 1, inflight := True,
                    callbacks := [(v, PageLoaded (length (arrayReads s)) 1)]\<rparr>],
      cache := (cache s)(p0 \<mapsto> length (entries s), p1 \<mapsto> Suc (length (entries s))),
      arrayReads := arrayReads s @ [newArrayRead address itemSize count cb 2],
      trace := trace s @
         [ReadArrayRequest p0 RETRIEVAL_SIZE True False (PAGE_SIZE div RETRIEVAL_SIZE)
            (PageFetched (length (entries s))),
          ReadArrayRequest p1 RETRIEVAL_SIZE True False (PAGE_SIZE div RETRIEVAL_SIZE)
            (PageFetched (Suc (length (entries s))))]\<rparr>"
  using assms
  by (simp add: readArray_alt Let_def requestEach_Cons requestOne_def loadPage_fresh
      allocated_def numeral_2_eq_2)


lemma two_answers:
  assumes "e0 < length (entries s)" "e1 < length (entries s)" "e0 \<noteq> e1"
    and "callbacks (entries s ! e0) = [(v, PageLoaded r 0)]"
    and "callbacks (entries s ! e1) = [(v, PageLoaded r 1)]"
    and "r < length (arrayReads s)"
    and "arrayReads s ! r = newArrayRead address itemSize count cb 2"
  shows "trace (pageFetched (pageFetched s e0 (FetchedArray a0)) e1 (FetchedArray a1)) =
      trace s @ [Delivered cb (arrayLoaded address itemSize count
                   [TypedArray v (fillPage a0), TypedArray v (fillPage a1)])]"
    and "trace (pageFetched (pageFetched s e1 (FetchedArray a1)) e0 (FetchedArray a0)) =
      trace s @ [Delivered cb (arrayLoaded address itemSize count
                   [TypedArray v (fillPage a0), TypedArray v (fillPage a1)])]"
  using assms
  by (simp_all add: pageFetched_def pageLoaded_def Let_def numeral_2_eq_2 List.map_filter_simps)


lemma straddling_pages:
  assumes "0 \<le> address" "4096 < address mod 4096 + 32"
  shows "calculatePagesForArray address 4 8 = [getPage address, getPage address + PAGE_SIZE]"
proof -
  define m where "m = address mod 4096"
  define p where "p = getPage address"
  have m: "0 \<le> m" "m < 4096" "4096 < m + 32" using assms(2) by (simp_all add: m_def)
  have p: "p = address - m" using assms(1) by (simp add: p_def m_def getPage_nonneg)
  have lt: "p < address + 32" "p + 4096 < address + 32" "\<not> p + 8192 < address + 32"
    using m p by simp_all
  have "pagesBelow (p + 4096 + PAGE_SIZE) (address + 32) = []"
    using lt(3) by (subst pagesBelow.simps) (simp add: PAGE_SIZE_def)
  then have "pagesBelow (p + PAGE_SIZE) (address + 32) = [p + 4096]"
    using lt(2) by (subst pagesBelow.simps) (simp add: PAGE_SIZE_def)
  then have "pagesBelow p (address + 32) = [p, p + 4096]"
    using lt(1) by (subst pagesBelow.simps) simp
  then show ?thesis
    by (simp add: calculatePagesForArray_def p_def PAGE_SIZE_def)
qed

lemma straddling_elements:
  assumes "0 \<le> address" "address mod 4 = 0" "4096 < address mod 4096 + 32"
  shows "take 8 (drop (nat (getOffset address 4))
           (map (\<lambda>i. Number (remoteUint32 mem (getPage address + 4 * int i))) [0..<1024]
            @ map (\<lambda>i. Number (remoteUint32 mem (getPage address + PAGE_SIZE + 4 * int i))) [0..<1024]))
     = map Number (remoteReadUint32 mem address 8)"
proof -
  define m where "m = address mod 4096"
  define p where "p = getPage address"
  define off where "off = nat (m div 4)"
  have m: "0 \<le> m" "m < 4096" "4096 < m + 32" using assms(3) by (simp_all add: m_def)
  have p: "address = p + m" using assms(1) by (simp add: p_def m_def getPage_nonneg)
  have "m mod 4 = address mod 4" unfolding m_def by (rule mod_mod_cancel) simp
  then have "m mod 4 = 0" using assms(2) by simp
  then have m4: "m = 4 * int off" using m(1) by (simp add: off_def) presburger
  have o: "getOffset address 4 = int off"
    using assms(1) m(1) by (simp add: getOffset_nonneg m_def off_def)
  have ob: "1016 < off" "off < 1024" using m m4 by simp_all
  let ?h = "\<lambda>i. Number (remoteUint32 mem (p + 4 * int i))"
  have join: "map ?h [0..<1024] @ map (\<lambda>i. Number (remoteUint32 mem (p + PAGE_SIZE + 4 * int i))) [0..<1024]
      = map ?h [0..<2048]"
  proof (rule nth_equalityI)
    show "length (map ?h [0..<1024] @ map (\<lambda>i. Number (remoteUint32 mem (p + PAGE_SIZE + 4 * int i))) [0..<1024])
        = length (map ?h [0..<2048])" by simp
  next
    fix i assume "i < length (map ?h [0..<1024] @ map (\<lambda>i. Number (remoteUint32 mem (p + PAGE_SIZE + 4 * int i))) [0..<1024])"
    then have i: "i < 2048" by simp
    show "(map ?h [0..<1024] @ map (\<lambda>i. Number (remoteUint32 mem (p + PAGE_SIZE + 4 * int i))) [0..<1024]) ! i
        = map ?h [0..<2048] ! i"
    proof (cases "i < 1024")
      case True
      then show ?thesis using i by (simp add: nth_append)
    next
      case False
      then have k: "i - 1024 < 1024" "int (i - 1024) = int i - 1024"
        using i by simp_all
      show ?thesis using i False by (simp add: nth_append k PAGE_SIZE_def)
    qed
  qed
  have "take 8 (drop off (map ?h [0..<2048])) = map ?h [off..<off + 8]"
    using ob by (simp add: take_map drop_map take_from_upt)
  also have "\<dots> = map (\<lambda>k. ?h (off + k)) [0..<8]"
  proof -
    have "[off..<off + 8] = map (\<lambda>k. k + off) [0..<8]"
      by (simp only: map_add_upt add.commute)
    then show ?thesis by (simp only: map_map o_def add.commute)
  qed
  also have "\<dots> = map Number (remoteReadUint32 mem address 8)"
    by (simp add: remoteReadUint32_def p m4 algebra_simps)
  finally show ?thesis
    unfolding o p_def [symmetric] join by simp
qed


text \<open>
  Claim C8, for a start address that is a multiple of the 4-byte element size. Eight unsigned
  32-bit values are read at an address whose range crosses into the next page, neither page
  having an entry. The read sends the two page fetches; once the debugger has answered both
  from the memory of the process, in either order, the caller's continuation receives exactly
  the eight numbers that the debugger returns for an uncached read of the same range from the
  same memory.
\<close>

theorem cached_read_equals_uncached_read:
  assumes "0 \<le> address" "address mod 4 = 0" "4096 < address mod 4096 + 32"
    and "cache s (getPage address) = None" "cache s (getPage address + PAGE_SIZE) = None"
  shows "trace (readArray s address 4 True False 8 cb) =
      trace s @
        [ReadArrayRequest (getPage address) 4 True False 1024 (PageFetched (length (entries s))),
         ReadArrayRequest (getPage address + PAGE_SIZE) 4 True False 1024
           (PageFetched (Suc (length (entries s))))]
    \<and> trace (pageFetched
          (pageFetched (readArray s address 4 True False 8 cb) (length (entries s))
             (FetchedArray (remoteReadUint32 mem (getPage address) 1024)))
          (Suc (length (entries s)))
          (FetchedArray (remoteReadUint32 mem (getPage address + PAGE_SIZE) 1024))) =
      trace (readArray s address 4 True False 8 cb)
        @ [Delivered cb (ArrayResult (map Number (remoteReadUint32 mem address 8)))]
    \<and> trace (pageFetched
          (pageFetched (readArray s address 4 True False 8 cb) (Suc (length (entries s)))
             (FetchedArray (remoteReadUint32 mem (getPage address + PAGE_SIZE) 1024)))
          (length (entries s))
          (FetchedArray (remoteReadUint32 mem (getPage address) 1024))) =
      trace (readArray s address 4 True False 8 cb)
        @ [Delivered cb (ArrayResult (map Number (remoteReadUint32 mem address 8)))]"
proof -
  let ?p0 = "getPage address"
  let ?p1 = "getPage address + PAGE_SIZE"
  let ?a0 = "remoteReadUint32 mem ?p0 1024"
  let ?a1 = "remoteReadUint32 mem ?p1 1024"
  let ?e0 = "length (entries s)"
  let ?s1 = "readArray s address 4 True False 8 cb"
  have pages: "calculatePagesForArray address 4 8 = [?p0, ?p1]"
    by (rule straddling_pages [OF assms(1,3)])
  have ne: "?p0 \<noteq> ?p1" by (simp add: PAGE_SIZE_def)
  have v: "getArrayViewer 4 True False = Some Uint32Array"
    by (simp add: getArrayViewer_cases)
  note s1 = readArray_two_fresh_pages [OF pages ne assms(4,5) v, where cb = cb]
  have sent: "trace ?s1 = trace s @
        [ReadArrayRequest ?p0 4 True False 1024 (PageFetched ?e0),
         ReadArrayRequest ?p1 4 True False 1024 (PageFetched (Suc ?e0))]"
    unfolding s1 by (simp add: PAGE_SIZE_def RETRIEVAL_SIZE_def)
  have f: "?e0 < length (entries ?s1)" "Suc ?e0 < length (entries ?s1)" "?e0 \<noteq> Suc ?e0"
    "callbacks (entries ?s1 ! ?e0) = [(Uint32Array, PageLoaded (length (arrayReads s)) 0)]"
    "callbacks (entries ?s1 ! Suc ?e0) = [(Uint32Array, PageLoaded (length (arrayReads s)) 1)]"
    "length (arrayReads s) < length (arrayReads ?s1)"
    "arrayReads ?s1 ! length (arrayReads s) = newArrayRead address 4 8 cb 2"
    unfolding s1 by (simp_all add: nth_append)
  have bufs: "length [fillPage ?a0, fillPage ?a1] = length (calculatePagesForArray address 4 8)"
    "\<forall>buf \<in> set [fillPage ?a0, fillPage ?a1]. length buf = nat PAGE_SIZE"
    by (simp_all add: pages)
  have "arrayLoaded address 4 8 [TypedArray Uint32Array (fillPage ?a0),
        TypedArray Uint32Array (fillPage ?a1)]
      = ArrayResult (map Number (remoteReadUint32 mem address 8))"
    using arrayLoaded_of_bytes [OF assms(1) _ v bufs]
      straddling_elements [OF assms(1,2,3), where mem = mem]
    by (simp add: viewElements_remote_page)
  then show ?thesis
    using sent two_answers [OF f, where ?a0.0 = ?a0 and ?a1.0 = ?a1] by simp
qed

theorem cached_read_equals_uncached_read_witness:
  "trace (pageFetched
          (pageFetched (readArray initialState 4080 4 True False 8 3) 0
             (FetchedArray (remoteReadUint32 (\<lambda>a. word_of_int a) 0 1024)))
          1 (FetchedArray (remoteReadUint32 (\<lambda>a. word_of_int a) 4096 1024))) =
      [ReadArrayRequest 0 4 True False 1024 (PageFetched 0),
       ReadArrayRequest 4096 4 True False 1024 (PageFetched 1),
       Delivered 3 (ArrayResult (map Number (remoteReadUint32 (\<lambda>a. word_of_int a) 4080 8)))]"
proof -
  have p: "getPage 4080 = 0" by (simp add: getPage_def big_mod_def PAGE_SIZE_def)
  have h: "(0::int) \<le> 4080" "(4080::int) mod 4 = 0" "(4096::int) < 4080 mod 4096 + 32"
    "cache initialState (getPage 4080) = None"
    "cache initialState (getPage 4080 + PAGE_SIZE) = None"
    by (simp_all add: initialState_def)
  from cached_read_equals_uncached_read [OF h, where cb = 3 and mem = "\<lambda>a. word_of_int a"]
  show ?thesis
    by (simp add: p PAGE_SIZE_def initialState_def)
qed

text \<open>
  Claim C8 as stated fails for a start address that is not a multiple of the element size:
  the offset inside the page is truncated, so the cached read of 8 values at 4082 delivers
  the values at 4080, which are not those of the uncached read at 4082 of the same memory
  (the memory whose byte at each address is the address modulo 256).
\<close>

theorem unaligned_start_reads_other_bytes:
  "trace (pageFetched
          (pageFetched (readArray initialState 4082 4 True False 8 3) 0
             (FetchedArray (remoteReadUint32 word_of_int 0 1024)))
          1 (FetchedArray (remoteReadUint32 word_of_int 4096 1024))) =
      [ReadArrayRequest 0 4 True False 1024 (PageFetched 0),
       ReadArrayRequest 4096 4 True False 1024 (PageFetched 1),
       Delivered 3 (ArrayResult (map Number (remoteReadUint32 word_of_int 4080 8)))]
   \<and> remoteReadUint32 word_of_int 4080 8 \<noteq> remoteReadUint32 word_of_int 4082 8"
proof -
  let ?mem = "word_of_int :: int \<Rightarrow> byte"
  let ?a0 = "remoteReadUint32 ?mem 0 1024"
  let ?a1 = "remoteReadUint32 ?mem 4096 1024"
  let ?s1 = "readArray initialState 4082 4 True False 8 3"
  have p: "getPage 4082 = 0" "getPage 4080 = 0"
    by (simp_all add: getPage_def big_mod_def PAGE_SIZE_def)
  have o: "getOffset 4082 4 = 1020" "getOffset 4080 4 = 1020"
    by (simp_all add: getOffset_def big_mod_def big_divide_def PAGE_SIZE_def)
  have pages: "calculatePagesForArray 4082 4 8 = [0, 4096]"
    using straddling_pages [of 4082] by (simp add: p PAGE_SIZE_def)
  have v: "getArrayViewer 4 True False = Some Uint32Array"
    by (simp add: getArrayViewer_cases)
  have c: "cache initialState 0 = None" "cache initialState 4096 = None"
    by (simp_all add: initialState_def)
  have ne: "(0::int) \<noteq> 4096" by simp
  note s1 = readArray_two_fresh_pages [OF pages ne c v, where cb = 3]
  have sent: "trace ?s1 =
        [ReadArrayRequest 0 4 True False 1024 (PageFetched 0),
         ReadArrayRequest 4096 4 True False 1024 (PageFetched 1)]"
    unfolding s1 by (simp add: PAGE_SIZE_def RETRIEVAL_SIZE_def initialState_def)
  have f: "0 < length (entries ?s1)" "1 < length (entries ?s1)" "(0::nat) \<noteq> 1"
    "callbacks (entries ?s1 ! 0) = [(Uint32Array, PageLoaded 0 0)]"
    "callbacks (entries ?s1 ! 1) = [(Uint32Array, PageLoaded 0 1)]"
    "0 < length (arrayReads ?s1)"
    "arrayReads ?s1 ! 0 = newArrayRead 4082 4 8 3 2"
    unfolding s1 by (simp_all add: initialState_def)
  have bufs: "length [fillPage ?a0, fillPage ?a1] = length (calculatePagesForArray 4082 4 8)"
    "\<forall>buf \<in> set [fillPage ?a0, fillPage ?a1]. length buf = nat PAGE_SIZE"
    by (simp_all add: pages)
  have h: "(0::int) \<le> 4080" "(4080::int) mod 4 = 0" "(4096::int) < 4080 mod 4096 + 32"
    "(0::int) \<le> 4082" "(0::int) \<le> 8"
    by simp_all
  have "arrayLoaded 4082 4 8 [TypedArray Uint32Array (fillPage ?a0),
        TypedArray Uint32Array (fillPage ?a1)]
      = ArrayResult (map Number (remoteReadUint32 ?mem 4080 8))"
    using arrayLoaded_of_bytes [OF h(4,5) v bufs]
      straddling_elements [OF h(1,2,3), where mem = ?mem]
    by (simp add: viewElements_remote_page p o PAGE_SIZE_def)
  then have cached: "trace (pageFetched (pageFetched ?s1 0 (FetchedArray ?a0)) 1 (FetchedArray ?a1))
      = [ReadArrayRequest 0 4 True False 1024 (PageFetched 0),
         ReadArrayRequest 4096 4 True False 1024 (PageFetched 1),
         Delivered 3 (ArrayResult (map Number (remoteReadUint32 ?mem 4080 8)))]"
    using sent two_answers(1) [OF f, where ?a0.0 = ?a0 and ?a1.0 = ?a1] by simp
  have first: "remoteReadUint32 ?mem a 8 ! 0 = remoteUint32 ?mem a" for a
    by (simp add: remoteReadUint32_def)
  have "remoteUint32 ?mem 4080 \<noteq> remoteUint32 ?mem 4082"
    by (simp add: remoteUint32_def le_word_def)
  then have "remoteReadUint32 ?mem 4080 8 \<noteq> remoteReadUint32 ?mem 4082 8"
    using first by metis
  then show ?thesis using cached by simp
qed

section \<open>What an array read delivers\<close>


lemma pageFetched_fetches [simp]:
  "pageFetches e (trace (pageFetched s entry r)) = pageFetches e (trace s)"
  by (simp add: pageFetched_def Let_def)





















end
